theory Spec2Isabelle
  imports Main "HOL-Library.Multiset" "HOL-Library.AList"
begin

section \<open>Values and errors\<close>

text \<open>
  The batch node is generic in the item type \<open>I\<close> and the result type \<open>O\<close>; they are the
  type variables \<open>'i\<close> and \<open>'o\<close>. A Go \<open>any\<close> that crosses the suspend/resume boundary
  holds a boxed input, a boxed output or a value of some other dynamic type. The type
  assertions \<open>v.(I)\<close> and \<open>result.(O)\<close> of \<open>invoke\<close> succeed on a value of the
  asserted type only.
\<close>

datatype ('i, 'o) any = AnyI 'i | AnyO 'o | AnyOther string

fun assertI :: "('i, 'o) any \<Rightarrow> 'i option" where
  "assertI (AnyI x) = Some x"
| "assertI _ = None"

fun assertO :: "('i, 'o) any \<Rightarrow> 'o option" where
  "assertO (AnyO y) = Some y"
| "assertO _ = None"

text \<open>
  A Go \<open>error\<close> returned by the inner task or by one of the library calls. The compose
  package tells a suspension from an ordinary failure with \<open>ExtractInterruptInfo\<close>,
  which yields the interrupt's info when the error is an interrupt signal.
\<close>

datatype error = InterruptSignal string | OrdinaryError string

fun ExtractInterruptInfo :: "error \<Rightarrow> string option" where
  "ExtractInterruptInfo (InterruptSignal info) = Some info"
| "ExtractInterruptInfo (OrdinaryError _) = None"

section \<open>store.go: the per-index checkpoint bridge\<close>

type_synonym byte = char

record batchBridgeStore =
  data :: "int \<rightharpoonup> byte list"

definition newBatchBridgeStore :: batchBridgeStore where
  "newBatchBridgeStore = \<lparr>data = Map.empty\<rparr>"

text \<open>
  A Go \<open>int\<close> is a 64-bit two's complement integer on the platforms the library
  supports; indices are modelled as \<open>int\<close> and the bounds are written out where a
  conversion checks them.
\<close>

definition minInt :: int where "minInt = - (2 ^ 63)"
definition maxInt :: int where "maxInt = 2 ^ 63 - 1"

text \<open>The decimal digits of a natural number, as \<open>%d\<close> and \<open>strconv.Itoa\<close> print them.\<close>

definition digit_char :: "nat \<Rightarrow> char" where
  "digit_char d = char_of (of_char (CHR ''0'') + d)"

function digits :: "nat \<Rightarrow> string" where
  "digits n = (if n < 10 then [digit_char n] else digits (n div 10) @ [digit_char (n mod 10)])"
  by pat_completeness auto
termination
  by (relation "measure (\<lambda>n. n)") auto

definition Itoa :: "int \<Rightarrow> string" where
  "Itoa i = (if i < 0 then CHR ''-'' # digits (nat (- i)) else digits (nat i))"

text \<open>\<open>fmt.Sprintf("batch_%d", index)\<close>.\<close>

definition makeBatchCheckpointID :: "int \<Rightarrow> string" where
  "makeBatchCheckpointID index = ''batch_'' @ Itoa index"

text \<open>
  \<open>strconv.Atoi\<close> of the standard library: an optional sign, then one or more decimal
  digits and nothing else; a value outside the range of \<open>int\<close> is a range error.
\<close>

definition is_digit :: "char \<Rightarrow> bool" where
  "is_digit c = (of_char (CHR ''0'') \<le> (of_char c :: nat) \<and> (of_char c :: nat) \<le> of_char (CHR ''9''))"

definition digit_val :: "char \<Rightarrow> nat" where
  "digit_val c = of_char c - of_char (CHR ''0'')"

fun parse_digits :: "nat \<Rightarrow> string \<Rightarrow> nat option" where
  "parse_digits acc [] = Some acc"
| "parse_digits acc (c # cs) =
     (if is_digit c then parse_digits (acc * 10 + digit_val c) cs else None)"

definition syntaxError :: "string \<Rightarrow> error" where
  "syntaxError s = OrdinaryError (''strconv.Atoi: parsing '' @ s @ '': invalid syntax'')"

definition rangeError :: "string \<Rightarrow> error" where
  "rangeError s = OrdinaryError (''strconv.Atoi: parsing '' @ s @ '': value out of range'')"

definition Atoi :: "string \<Rightarrow> error + int" where
  "Atoi s =
     (let neg = (s \<noteq> [] \<and> hd s = CHR ''-'');
          body = (if s \<noteq> [] \<and> (hd s = CHR ''-'' \<or> hd s = CHR ''+'') then tl s else s)
      in if body = [] then Inl (syntaxError s)
         else (case parse_digits 0 body of
                 None \<Rightarrow> Inl (syntaxError s)
               | Some n \<Rightarrow>
                   (let v = (if neg then - int n else int n)
                    in if v < minInt \<or> maxInt < v then Inl (rangeError s) else Inr v)))"

definition HasPrefix :: "string \<Rightarrow> string \<Rightarrow> bool" where
  "HasPrefix s p = (take (length p) s = p)"

definition TrimPrefix :: "string \<Rightarrow> string \<Rightarrow> string" where
  "TrimPrefix s p = (if HasPrefix s p then drop (length p) s else s)"

definition parseBatchIndex :: "string \<Rightarrow> error + int" where
  "parseBatchIndex checkPointID =
     (if \<not> HasPrefix checkPointID ''batch_''
      then Inl (OrdinaryError (''invalid batch checkpoint ID: '' @ checkPointID))
      else Atoi (TrimPrefix checkPointID ''batch_''))"

text \<open>
  \<open>Get\<close> and \<open>Set\<close> run under the store's lock, so each is one atomic step on the map.
  \<open>Get\<close> returns \<open>(data, ok, nil)\<close>: for a key that is absent \<open>data\<close> is the nil slice,
  which is the empty byte list here.
\<close>

definition Get :: "batchBridgeStore \<Rightarrow> string \<Rightarrow> error + (byte list \<times> bool)" where
  "Get m checkPointID =
     (case parseBatchIndex checkPointID of
        Inl err \<Rightarrow> Inl err
      | Inr index \<Rightarrow>
          (case data m index of
             None \<Rightarrow> Inr ([], False)
           | Some d \<Rightarrow> Inr (d, True)))"

definition Set :: "batchBridgeStore \<Rightarrow> string \<Rightarrow> byte list \<Rightarrow> error + batchBridgeStore" where
  "Set m checkPointID checkPoint =
     (case parseBatchIndex checkPointID of
        Inl err \<Rightarrow> Inl err
      | Inr index \<Rightarrow> Inr (m\<lparr>data := (data m)(index \<mapsto> checkPoint)\<rparr>))"

section \<open>types.go: configuration and interrupt state\<close>

text \<open>
  \<open>NodeInterruptState\<close>, field by field. \<open>CompletedResults\<close> is a Go map; it is kept as an
  association list with one entry per key, and ranging over the map visits the entries
  in the order of the list.
\<close>

record ('i, 'o) NodeInterruptState =
  OriginalInputs :: "('i, 'o) any list"
  CompletedResults :: "(int \<times> ('i, 'o) any) list"
  InterruptedIndices :: "int list"
  TotalCount :: int

text \<open>
  Options given to the inner task: at compile time the checkpoint store and the caller's
  compile options, at each call the checkpoint ID and the caller's inner options.
\<close>

datatype compile_option = WithCheckPointStore batchBridgeStore | WithGraphName string

datatype invoke_option = WithCheckPointID string | WithCallbacks string

text \<open>
  What \<open>invoke\<close> uses of a \<open>context.Context\<close>: the triple
  \<open>(wasInterrupted, hasState, prevState)\<close> that
  \<open>compose.GetInterruptState[*NodeInterruptState](ctx)\<close> reads from it, with \<open>None\<close> for a
  nil \<open>prevState\<close>, and the address that \<open>compose.AppendAddressSegment\<close> extends.
\<close>

record ('i, 'o) Context =
  wasInterrupted :: bool
  hasState :: bool
  prevState :: "('i, 'o) NodeInterruptState option"
  address :: "(string \<times> string) list"

definition AppendAddressSegment ::
  "('i, 'o) Context \<Rightarrow> string \<Rightarrow> string \<Rightarrow> ('i, 'o) Context" where
  "AppendAddressSegment ctx segType segValue = ctx\<lparr>address := address ctx @ [(segType, segValue)]\<rparr>"

text \<open>
  \<open>compose.Runnable[I, O]\<close>: \<open>Invoke\<close> takes the context, the item and the options, and
  returns \<open>(output, error)\<close>; the error is \<open>None\<close> for nil. \<open>Compilable[I, O]\<close>:
  \<open>Compile\<close> takes the context and the compile options and returns the runnable or an
  error.
\<close>

type_synonym ('i, 'o) Runnable =
  "('i, 'o) Context \<Rightarrow> 'i \<Rightarrow> invoke_option list \<Rightarrow> 'o \<times> error option"

type_synonym ('i, 'o) Compilable =
  "('i, 'o) Context \<Rightarrow> compile_option list \<Rightarrow> error + ('i, 'o) Runnable"

definition AddressSegmentBatchProcess :: string where
  "AddressSegmentBatchProcess = ''batch_process''"

text \<open>
  \<open>Node[I, O]\<close>. The fields \<open>zeroI\<close> and \<open>zeroO\<close> are the zero values of the type
  parameters, which \<open>make([]I, n)\<close> and \<open>make([]O, n)\<close> fill a fresh slice with.
\<close>

record ('i, 'o) Node =
  name :: string
  innerTask :: "('i, 'o) Compilable"
  maxConcurrency :: int
  innerCompileOptions :: "compile_option list"
  zeroI :: 'i
  zeroO :: 'o

record options =
  innerOptions :: "invoke_option list"

section \<open>node.go: invoke\<close>

text \<open>
  A run-time panic is not a returned error; the three places where \<open>invoke\<close> can panic
  are kept apart from its results.
\<close>

datatype panic =
  MakeSliceLenOutOfRange
| MakeChanSizeOutOfRange
| IndexOutOfRange int nat

text \<open>
  The errors \<open>invoke\<close> builds: the two \<open>fmt.Errorf\<close> wrappers, each holding the wrapped
  error (and the task index it prints), and \<open>compose.CompositeInterrupt\<close> with the state
  and the interrupt errors it bundles.
\<close>

datatype ('i, 'o) batch_error =
  CompileFailed error
| TaskFailed int error
| CompositeInterrupt "('i, 'o) NodeInterruptState" "error list"

text \<open>\<open>([]O, error)\<close> as \<open>invoke\<close> returns it, or the panic that ended the call.\<close>

datatype ('i, 'o) invoke_result =
  Outputs "'o list"
| Failed "('i, 'o) batch_error"
| Panicked panic

record 'o taskResult =
  index :: int
  output' :: 'o
  err :: "error option"

definition isResume :: "('i, 'o) Context \<Rightarrow> bool" where
  "isResume ctx = (wasInterrupted ctx \<and> hasState ctx \<and> prevState ctx \<noteq> None)"

text \<open>\<open>make([]T, n)\<close>: a slice of \<open>n\<close> zero values; a negative length panics.\<close>

definition makeSlice :: "'a \<Rightarrow> int \<Rightarrow> panic + 'a list" where
  "makeSlice z n = (if n < 0 then Inl MakeSliceLenOutOfRange else Inr (replicate (nat n) z))"

text \<open>
  The loop over \<open>prevState.OriginalInputs\<close>: position \<open>i\<close> is written when the stored
  value asserts to \<open>I\<close>, and the write panics when \<open>i\<close> is past the slice.
\<close>

fun restoreInputs :: "nat \<Rightarrow> ('i, 'o) any list \<Rightarrow> 'i list \<Rightarrow> panic + 'i list" where
  "restoreInputs i [] effectiveInputs = Inr effectiveInputs"
| "restoreInputs i (v # vs) effectiveInputs =
     (case assertI v of
        Some typedInput \<Rightarrow>
          (if i < length effectiveInputs
           then restoreInputs (Suc i) vs (effectiveInputs[i := typedInput])
           else Inl (IndexOutOfRange (int i) (length effectiveInputs)))
      | None \<Rightarrow> restoreInputs (Suc i) vs effectiveInputs)"

text \<open>
  The loop over \<open>prevState.CompletedResults\<close>: the guard is \<open>idx < len(outputs)\<close> alone,
  so a negative key whose value asserts to \<open>O\<close> reaches the write and panics.
\<close>

fun restoreResults :: "(int \<times> ('i, 'o) any) list \<Rightarrow> 'o list \<Rightarrow> panic + 'o list" where
  "restoreResults [] outputs = Inr outputs"
| "restoreResults ((idx, result) # rest) outputs =
     (if idx < int (length outputs)
      then (case assertO result of
              Some typedResult \<Rightarrow>
                (if idx < 0 then Inl (IndexOutOfRange idx (length outputs))
                 else restoreResults rest (outputs[nat idx := typedResult]))
            | None \<Rightarrow> restoreResults rest outputs)
      else restoreResults rest outputs)"

text \<open>
  Lines 110 to 152: the effective inputs, the indices to process and the output slice
  with the completed results of the previous run restored.
\<close>

definition prepare ::
  "('i, 'o) Node \<Rightarrow> ('i, 'o) Context \<Rightarrow> 'i list \<Rightarrow> panic + ('i list \<times> int list \<times> 'o list)" where
  "prepare b ctx inputs =
     (case (if isResume ctx then prevState ctx else None) of
        Some prev \<Rightarrow>
          (case makeSlice (zeroI b) (TotalCount prev) of
             Inl p \<Rightarrow> Inl p
           | Inr blank \<Rightarrow>
               (case restoreInputs 0 (OriginalInputs prev) blank of
                  Inl p \<Rightarrow> Inl p
                | Inr effectiveInputs \<Rightarrow>
                    (case restoreResults (CompletedResults prev)
                            (replicate (length effectiveInputs) (zeroO b)) of
                       Inl p \<Rightarrow> Inl p
                     | Inr outputs \<Rightarrow> Inr (effectiveInputs, InterruptedIndices prev, outputs))))
      | None \<Rightarrow>
          Inr (inputs, map int [0 ..< length inputs], replicate (length inputs) (zeroO b)))"

text \<open>
  \<open>runTask\<close>: the sub-context gets the address segment \<open>batch_process:<index>\<close>, the
  options start with the checkpoint ID of the index, and the runner's result goes on the
  result channel unchanged.
\<close>

definition runTask ::
  "('i, 'o) Context \<Rightarrow> ('i, 'o) Runnable \<Rightarrow> options \<Rightarrow> int \<Rightarrow> 'i \<Rightarrow> 'o taskResult" where
  "runTask ctx runner batchOpts idx input =
     (let subCtx = AppendAddressSegment ctx AddressSegmentBatchProcess (Itoa idx);
          invokeOpts = WithCheckPointID (makeBatchCheckpointID idx) # innerOptions batchOpts;
          r = runner subCtx input invokeOpts
      in \<lparr>index = idx, output' = fst r, err = snd r\<rparr>)"

text \<open>
  The dispatch loop over \<open>indicesToProcess\<close>. Both branches read \<open>effectiveInputs[idx]\<close>
  on the calling goroutine before the task starts, so an index outside the slice panics
  there; the results are those of the tasks started before that, in the order of the loop.
\<close>

fun dispatch ::
  "('i, 'o) Context \<Rightarrow> ('i, 'o) Runnable \<Rightarrow> options \<Rightarrow> 'i list \<Rightarrow> int list \<Rightarrow>
   'o taskResult list \<times> panic option" where
  "dispatch ctx runner batchOpts effectiveInputs [] = ([], None)"
| "dispatch ctx runner batchOpts effectiveInputs (idx # rest) =
     (if 0 \<le> idx \<and> idx < int (length effectiveInputs)
      then (let r = runTask ctx runner batchOpts idx (effectiveInputs ! nat idx);
                (rs, p) = dispatch ctx runner batchOpts effectiveInputs rest
            in (r # rs, p))
      else ([], Some (IndexOutOfRange idx (length effectiveInputs))))"

text \<open>
  The order in which the results leave the result channel. With \<open>maxConcurrency = 0\<close>
  every task runs on the calling goroutine and sends before the next one starts, so the
  order is that of the loop. Otherwise the first task runs on the calling goroutine
  before any other is started and its result is first; the goroutines of the others send
  in an order the scheduler decides, which is the function \<open>sched\<close>: a rearrangement of
  the list it is given.
\<close>

definition arrival ::
  "int \<Rightarrow> ('o taskResult list \<Rightarrow> 'o taskResult list) \<Rightarrow> 'o taskResult list \<Rightarrow> 'o taskResult list" where
  "arrival maxConc sched results =
     (if maxConc = 0 then results
      else (case results of [] \<Rightarrow> [] | first # others \<Rightarrow> first # sched others))"

text \<open>
  The variables of the collecting loop (lines 230 to 233) and the output slice. The map
  assignment \<open>completedResults[k] = v\<close> is \<open>AList.update k v\<close>: it replaces the entry of
  a key that is present and adds one otherwise. The write \<open>outputs[result.index]\<close> is
  inside the slice, since the dispatch loop has read \<open>effectiveInputs\<close>, of the same
  length, at the same index.
\<close>

record ('i, 'o) collector =
  normalErr :: "('i, 'o) batch_error option"
  interruptErrs :: "error list"
  completedResults :: "(int \<times> ('i, 'o) any) list"
  interruptedIndices :: "int list"
  outputs :: "'o list"

definition collectOne :: "('i, 'o) collector \<Rightarrow> 'o taskResult \<Rightarrow> ('i, 'o) collector" where
  "collectOne c result =
     (case err result of
        Some e \<Rightarrow>
          (case ExtractInterruptInfo e of
             Some info \<Rightarrow>
               c\<lparr>interruptErrs := interruptErrs c @ [e],
                  interruptedIndices := interruptedIndices c @ [index result]\<rparr>
           | None \<Rightarrow>
               (if normalErr c = None
                then c\<lparr>normalErr := Some (TaskFailed (index result) e)\<rparr>
                else c))
      | None \<Rightarrow>
          c\<lparr>outputs := (outputs c)[nat (index result) := output' result],
             completedResults := AList.update (index result) (AnyO (output' result)) (completedResults c)\<rparr>)"

definition collect :: "'o list \<Rightarrow> 'o taskResult list \<Rightarrow> ('i, 'o) collector" where
  "collect outs arrived =
     foldl collectOne
       \<lparr>normalErr = None, interruptErrs = [], completedResults = [],
        interruptedIndices = [], outputs = outs\<rparr>
       arrived"

text \<open>Lines 252 to 274: the first normal error, else the composite interrupt, else the outputs.\<close>

definition finish :: "'i list \<Rightarrow> ('i, 'o) collector \<Rightarrow> ('i, 'o) invoke_result" where
  "finish effectiveInputs c =
     (case normalErr c of
        Some e \<Rightarrow> Failed e
      | None \<Rightarrow>
          (if length (interruptErrs c) > 0
           then Failed (CompositeInterrupt
                  \<lparr>OriginalInputs = map AnyI effectiveInputs,
                   CompletedResults = completedResults c,
                   InterruptedIndices = interruptedIndices c,
                   TotalCount = int (length effectiveInputs)\<rparr>
                  (interruptErrs c))
           else Outputs (outputs c)))"

text \<open>
  Lines 155 to 157: the checkpoint store of this invocation, always a new one, and then
  the node's own compile options.
\<close>

definition compileOpts :: "('i, 'o) Node \<Rightarrow> compile_option list" where
  "compileOpts b = WithCheckPointStore newBatchBridgeStore # innerCompileOptions b"

text \<open>
  \<open>invoke\<close>. Besides the result it returns the indices for which \<open>runner.Invoke\<close> was
  called, in the order of the dispatch loop.
\<close>

definition invoke ::
  "('i, 'o) Node \<Rightarrow> ('i, 'o) Context \<Rightarrow> 'i list \<Rightarrow> options \<Rightarrow>
   ('o taskResult list \<Rightarrow> 'o taskResult list) \<Rightarrow> int list \<times> ('i, 'o) invoke_result" where
  "invoke b ctx inputs batchOpts sched =
     (case prepare b ctx inputs of
        Inl p \<Rightarrow> ([], Panicked p)
      | Inr (effectiveInputs, indicesToProcess, outs) \<Rightarrow>
          (case innerTask b ctx (compileOpts b) of
             Inl e \<Rightarrow> ([], Failed (CompileFailed e))
           | Inr runner \<Rightarrow>
               (if length indicesToProcess = 0 then ([], Outputs outs)
                else if maxConcurrency b < 0 then ([], Panicked MakeChanSizeOutOfRange)
                else (case dispatch ctx runner batchOpts effectiveInputs indicesToProcess of
                        (results, Some p) \<Rightarrow> (map index results, Panicked p)
                      | (results, None) \<Rightarrow>
                          (map index results,
                           finish effectiveInputs
                             (collect outs (arrival (maxConcurrency b) sched results)))))))"

text \<open>
  \<open>Invoke\<close>: the batch options are applied, the callbacks observe the call, and the
  result of \<open>invoke\<close> is returned (nil outputs with an error, or the outputs). What is
  proved of \<open>invoke\<close> for every \<open>batchOpts\<close> holds of \<open>Invoke\<close> for every list of options.
\<close>

definition WithInnerOptions :: "invoke_option list \<Rightarrow> options \<Rightarrow> options" where
  "WithInnerOptions opts o' = o'\<lparr>innerOptions := innerOptions o' @ opts\<rparr>"

definition applyBatchOptions :: "(options \<Rightarrow> options) list \<Rightarrow> options" where
  "applyBatchOptions opts = foldl (\<lambda>o' opt. opt o') \<lparr>innerOptions = []\<rparr> opts"

definition Invoke ::
  "('i, 'o) Node \<Rightarrow> ('i, 'o) Context \<Rightarrow> 'i list \<Rightarrow> (options \<Rightarrow> options) list \<Rightarrow>
   ('o taskResult list \<Rightarrow> 'o taskResult list) \<Rightarrow> int list \<times> ('i, 'o) invoke_result" where
  "Invoke b ctx inputs opts sched = invoke b ctx inputs (applyBatchOptions opts) sched"

section \<open>main.go: the document review example\<close>

text \<open>
  The items and results of the example's scenarios. A \<open>ReviewRequest\<close> holds the document
  ID, the content and the priority; a \<open>ReviewResult\<close> the document ID, the approval and
  the comments (its score and time stamp play no part in the batch node and are left
  out).
\<close>

datatype ReviewRequest = ReviewRequest string string string

datatype ReviewResult = ReviewResult string bool string

definition zeroRequest :: ReviewRequest where
  "zeroRequest = ReviewRequest [] [] []"

definition zeroResult :: ReviewResult where
  "zeroResult = ReviewResult [] False []"

text \<open>Scenario 5: the workflow fails on \<open>DOC-002\<close> and approves every other document.\<close>

fun validatingReview :: "(ReviewRequest, ReviewResult) Runnable" where
  "validatingReview ctx (ReviewRequest docID content priority) opts =
     (if docID = ''DOC-002''
      then (zeroResult,
            Some (OrdinaryError (''validation failed for document '' @ docID @ '': content too short'')))
      else (ReviewResult docID True ''Passed validation'', None))"

text \<open>
  Scenario 6: a document of high priority interrupts for human review on the first run.
  On a resumed run it completes when the resume data holds a decision for it, and
  interrupts again while it is still waiting for one; \<open>decided\<close> lists the documents
  with a decision. Every other document is approved at once.
\<close>

fun humanReview :: "string list \<Rightarrow> (ReviewRequest, ReviewResult) Runnable" where
  "humanReview decided ctx (ReviewRequest docID content priority) opts =
     (if priority = ''high''
      then (if \<not> wasInterrupted ctx
            then (zeroResult, Some (InterruptSignal docID))
            else if docID \<in> set decided
            then (ReviewResult docID True ''Human review'', None)
            else (zeroResult, Some (InterruptSignal docID)))
      else (ReviewResult docID True ''Auto-approved (non-high priority)'', None))"

text \<open>
  Scenario 1: the simple workflow reviews every document (its random score is left out
  and the approval is fixed).
\<close>

fun simpleReview :: "(ReviewRequest, ReviewResult) Runnable" where
  "simpleReview ctx (ReviewRequest docID content priority) opts =
     (ReviewResult docID True (''Auto-reviewed document '' @ docID @ '' with priority '' @ priority),
      None)"

definition reviewNode ::
  "(ReviewRequest, ReviewResult) Runnable \<Rightarrow> int \<Rightarrow> (ReviewRequest, ReviewResult) Node" where
  "reviewNode workflow c =
     \<lparr>name = ''Reviewer'', innerTask = (\<lambda>ctx opts. Inr workflow), maxConcurrency = c,
      innerCompileOptions = [], zeroI = zeroRequest, zeroO = zeroResult\<rparr>"

text \<open>A node whose inner task does not compile.\<close>

definition brokenNode :: "(ReviewRequest, ReviewResult) Node" where
  "brokenNode =
     \<lparr>name = ''Broken'', innerTask = (\<lambda>ctx opts. Inl (OrdinaryError ''graph has no end node'')),
      maxConcurrency = 0, innerCompileOptions = [], zeroI = zeroRequest, zeroO = zeroResult\<rparr>"

definition background :: "(ReviewRequest, ReviewResult) Context" where
  "background = \<lparr>wasInterrupted = False, hasState = False, prevState = None, address = []\<rparr>"

definition resumed ::
  "(ReviewRequest, ReviewResult) NodeInterruptState \<Rightarrow> (ReviewRequest, ReviewResult) Context" where
  "resumed st = \<lparr>wasInterrupted = True, hasState = True, prevState = Some st, address = []\<rparr>"

definition docs :: "ReviewRequest list" where
  "docs = [ReviewRequest ''DOC-001'' ''Content 1'' ''high'',
           ReviewRequest ''DOC-002'' ''Content 2'' ''medium'',
           ReviewRequest ''DOC-003'' ''Content 3'' ''high'',
           ReviewRequest ''DOC-004'' ''Content 4'' ''low'']"

definition noOptions :: options where
  "noOptions = \<lparr>innerOptions = []\<rparr>"

text \<open>
  The results of the example and the interrupt states of its runs: \<open>firstSuspension\<close> is
  the state of the first run of scenario 6, \<open>secondSuspension\<close> the state of a resumed
  run in which only \<open>DOC-001\<close> had a decision.
\<close>

definition reviewed2 :: ReviewResult where
  "reviewed2 = ReviewResult ''DOC-002'' True ''Auto-approved (non-high priority)''"

definition reviewed4 :: ReviewResult where
  "reviewed4 = ReviewResult ''DOC-004'' True ''Auto-approved (non-high priority)''"

definition approved1 :: ReviewResult where
  "approved1 = ReviewResult ''DOC-001'' True ''Human review''"

definition approved3 :: ReviewResult where
  "approved3 = ReviewResult ''DOC-003'' True ''Human review''"

definition firstSuspension :: "(ReviewRequest, ReviewResult) NodeInterruptState" where
  "firstSuspension =
     \<lparr>OriginalInputs = map AnyI docs,
      CompletedResults = [(1, AnyO reviewed2), (3, AnyO reviewed4)],
      InterruptedIndices = [0, 2],
      TotalCount = 4\<rparr>"

definition secondSuspension :: "(ReviewRequest, ReviewResult) NodeInterruptState" where
  "secondSuspension =
     \<lparr>OriginalInputs = map AnyI docs,
      CompletedResults = [(0, AnyO approved1)],
      InterruptedIndices = [2],
      TotalCount = 4\<rparr>"

text \<open>
  States a checkpoint store can hand back: one whose first stored input and first stored
  result have the wrong dynamic type, one with a negative result key, and one with a
  result key past the end.
\<close>

definition corruptState :: "(ReviewRequest, ReviewResult) NodeInterruptState" where
  "corruptState =
     \<lparr>OriginalInputs = [AnyOther ''corrupt'', AnyI (docs ! 1)],
      CompletedResults = [(0, AnyI (docs ! 0)), (1, AnyO reviewed2)],
      InterruptedIndices = [],
      TotalCount = 2\<rparr>"

definition negativeKeyState :: "(ReviewRequest, ReviewResult) NodeInterruptState" where
  "negativeKeyState =
     firstSuspension\<lparr>CompletedResults := [(- 1, AnyO reviewed2), (3, AnyO reviewed4)]\<rparr>"

definition largeKeyState :: "(ReviewRequest, ReviewResult) NodeInterruptState" where
  "largeKeyState =
     firstSuspension\<lparr>CompletedResults := [(4, AnyO reviewed2), (3, AnyO reviewed4)]\<rparr>"

section \<open>Predicates of the statements\<close>

text \<open>An outcome that carries an ordinary error: an error that is not an interrupt signal.\<close>

definition ordinaryFailure :: "'o taskResult \<Rightarrow> bool" where
  "ordinaryFailure r = (case err r of None \<Rightarrow> False | Some e \<Rightarrow> ExtractInterruptInfo e = None)"

text \<open>An outcome that carries an interrupt signal.\<close>

definition suspended :: "'o taskResult \<Rightarrow> bool" where
  "suspended r = (case err r of None \<Rightarrow> False | Some e \<Rightarrow> ExtractInterruptInfo e \<noteq> None)"

text \<open>
  A valid interrupt state, as a run of \<open>invoke\<close> builds it: one stored input of type \<open>I\<close>
  per item, interrupted indices and result keys inside the batch, every stored result of
  type \<open>O\<close>, one entry per key, and no index both interrupted and completed.
\<close>

definition valid_state :: "('i, 'o) NodeInterruptState \<Rightarrow> bool" where
  "valid_state st =
     (TotalCount st = int (length (OriginalInputs st)) \<and>
      (\<forall>v \<in> set (OriginalInputs st). assertI v \<noteq> None) \<and>
      (\<forall>idx \<in> set (InterruptedIndices st). 0 \<le> idx \<and> idx < TotalCount st) \<and>
      (\<forall>(k, v) \<in> set (CompletedResults st). 0 \<le> k \<and> k < TotalCount st \<and> assertO v \<noteq> None) \<and>
      distinct (map fst (CompletedResults st)) \<and>
      set (InterruptedIndices st) \<inter> fst ` set (CompletedResults st) = {})"

text \<open>
  What the slots hold after restoring: the stored value where there is one and it
  converts, the zero value otherwise.
\<close>

definition restoredInputs :: "('i, 'o) Node \<Rightarrow> ('i, 'o) NodeInterruptState \<Rightarrow> 'i list" where
  "restoredInputs b st =
     map (\<lambda>j. case (if j < length (OriginalInputs st)
                     then assertI (OriginalInputs st ! j) else None) of
                 Some x \<Rightarrow> x
               | None \<Rightarrow> zeroI b)
         [0 ..< nat (TotalCount st)]"

definition restoredOutputs :: "('i, 'o) Node \<Rightarrow> ('i, 'o) NodeInterruptState \<Rightarrow> 'o list" where
  "restoredOutputs b st =
     map (\<lambda>j. case map_of (CompletedResults st) (int j) of
                 Some v \<Rightarrow> (case assertO v of Some y \<Rightarrow> y | None \<Rightarrow> zeroO b)
               | None \<Rightarrow> zeroO b)
         [0 ..< nat (TotalCount st)]"

section \<open>node.go, lines 196 to 221: the goroutines of the dispatch loop\<close>

text \<open>
  The dispatch loop as a transition system over the goroutines it starts. A state holds
  the loop counter, the indices the loop has not reached, the task running on the calling
  goroutine, the goroutines blocked on \<open>sem <- struct{}{}\<close>, those inside \<open>runTask\<close> with
  a permit, those whose \<open>runTask\<close> returned and whose deferred \<open><-sem\<close> has not run, and
  the indices of the results sent on \<open>resultCh\<close>, in order.
  An event is one step of one goroutine: \<open>Start\<close> calls \<open>runTask\<close> on the calling
  goroutine (every iteration when \<open>maxConcurrency = 0\<close>, the iteration \<open>i = 0\<close>
  otherwise), \<open>Return\<close> is its return, \<open>Spawn\<close> is the \<open>go\<close> statement of an iteration
  \<open>i > 0\<close>, \<open>Acquire\<close> the send on \<open>sem\<close> (possible while the channel of capacity
  \<open>maxConcurrency\<close> is not full), \<open>Complete\<close> the return of \<open>runTask\<close> in a goroutine and
  \<open>Release\<close> the deferred receive from \<open>sem\<close>. A schedule is a list of events; \<open>run\<close> is
  \<open>None\<close> when the schedule asks for a step that is not possible.
\<close>

datatype event = Start | Return | Spawn | Acquire int | Complete int | Release int

record pool =
  iteration :: nat
  pending :: "int list"
  calling :: "int option"
  waiting :: "int list"
  running :: "int list"
  releasing :: "int list"
  sent :: "int list"

definition initial :: "int list \<Rightarrow> pool" where
  "initial indicesToProcess =
     \<lparr>iteration = 0, pending = indicesToProcess, calling = None, waiting = [], running = [],
      releasing = [], sent = []\<rparr>"

text \<open>\<open>len(sem)\<close>, and the number of sub-task invocations executing at the moment.\<close>

definition permits :: "pool \<Rightarrow> nat" where
  "permits s = length (running s) + length (releasing s)"

definition live :: "pool \<Rightarrow> nat" where
  "live s = (case calling s of None \<Rightarrow> 0 | Some idx \<Rightarrow> 1) + length (running s)"

fun step :: "int \<Rightarrow> event \<Rightarrow> pool \<Rightarrow> pool option" where
  "step B Start s =
     (case (calling s, pending s) of
        (None, idx # rest) \<Rightarrow>
          (if B = 0 \<or> iteration s = 0
           then Some (s\<lparr>iteration := Suc (iteration s), pending := rest, calling := Some idx\<rparr>)
           else None)
      | _ \<Rightarrow> None)"
| "step B Return s =
     (case calling s of
        Some idx \<Rightarrow> Some (s\<lparr>calling := None, sent := sent s @ [idx]\<rparr>)
      | None \<Rightarrow> None)"
| "step B Spawn s =
     (case (calling s, pending s) of
        (None, idx # rest) \<Rightarrow>
          (if B \<noteq> 0 \<and> iteration s \<noteq> 0
           then Some (s\<lparr>iteration := Suc (iteration s), pending := rest,
                       waiting := waiting s @ [idx]\<rparr>)
           else None)
      | _ \<Rightarrow> None)"
| "step B (Acquire idx) s =
     (if idx \<in> set (waiting s) \<and> int (permits s) < B
      then Some (s\<lparr>waiting := remove1 idx (waiting s), running := running s @ [idx]\<rparr>)
      else None)"
| "step B (Complete idx) s =
     (if idx \<in> set (running s)
      then Some (s\<lparr>running := remove1 idx (running s), releasing := releasing s @ [idx],
                  sent := sent s @ [idx]\<rparr>)
      else None)"
| "step B (Release idx) s =
     (if idx \<in> set (releasing s)
      then Some (s\<lparr>releasing := remove1 idx (releasing s)\<rparr>)
      else None)"

fun run :: "int \<Rightarrow> event list \<Rightarrow> pool \<Rightarrow> pool option" where
  "run B [] s = Some s"
| "run B (e # es) s = (case step B e s of None \<Rightarrow> None | Some s' \<Rightarrow> run B es s')"

text \<open>
  The results sent so far followed by the task running on the calling goroutine: in the
  sequential branch, the tasks started so far, in order.
\<close>

definition started :: "pool \<Rightarrow> int list" where
  "started s = sent s @ (case calling s of None \<Rightarrow> [] | Some idx \<Rightarrow> [idx])"

text \<open>
  The invariant of the loop: the permits taken never exceed the capacity of \<open>sem\<close>;
  while the calling goroutine runs a task, and in the sequential branch, no goroutine
  exists; and in the sequential branch the tasks started and those pending are the
  indices to process, in order.
\<close>

definition pool_inv :: "int \<Rightarrow> int list \<Rightarrow> pool \<Rightarrow> bool" where
  "pool_inv B idxs s =
     ((0 < B \<longrightarrow> int (permits s) \<le> B) \<and>
      (calling s \<noteq> None \<or> iteration s = 0 \<or> B = 0 \<longrightarrow>
         waiting s = [] \<and> running s = [] \<and> releasing s = []) \<and>
      (B = 0 \<longrightarrow> started s @ pending s = idxs))"

text \<open>
  The goroutines that hold a result still to be sent, and the invariant of the result
  channel: every index is sent, in flight or pending; nothing is in flight before the
  first iteration; and the first result sent is that of the first index.
\<close>

definition in_flight :: "pool \<Rightarrow> int multiset" where
  "in_flight s = mset (waiting s) + mset (running s)"

definition chan_inv :: "int list \<Rightarrow> pool \<Rightarrow> bool" where
  "chan_inv idxs s =
     (mset (started s) + in_flight s + mset (pending s) = mset idxs \<and>
      (iteration s = 0 \<longrightarrow> in_flight s = {#} \<and> pending s = idxs) \<and>
      (started s = [] \<longleftrightarrow> iteration s = 0) \<and>
      (started s \<noteq> [] \<longrightarrow> idxs \<noteq> [] \<and> hd (started s) = hd idxs))"

section \<open>The checkpoint key and the store\<close>

lemma digit_char_is_digit: "d < 10 \<Longrightarrow> is_digit (digit_char d)"
  by (simp add: is_digit_def digit_char_def)

lemma digit_char_val: "d < 10 \<Longrightarrow> digit_val (digit_char d) = d"
  by (simp add: digit_val_def digit_char_def)

lemma parse_digits_append:
  "parse_digits acc (xs @ ys) =
     (case parse_digits acc xs of None \<Rightarrow> None | Some m \<Rightarrow> parse_digits m ys)"
  by (induction xs arbitrary: acc) auto

lemma parse_digits_digits: "parse_digits 0 (digits n) = Some n"
proof (induction n rule: digits.induct)
  case (1 n)
  show ?case
  proof (cases "n < 10")
    case True
    then show ?thesis
      by (subst digits.simps) (simp add: digit_char_is_digit digit_char_val)
  next
    case False
    with 1 have ih: "parse_digits 0 (digits (n div 10)) = Some (n div 10)" by simp
    have m: "n mod 10 < 10" by simp
    show ?thesis
      using False ih m
      by (subst digits.simps)
         (simp add: parse_digits_append digit_char_is_digit digit_char_val del: digits.simps)
  qed
qed

lemma digits_nonempty: "digits n \<noteq> []"
  by (subst digits.simps) simp

lemma hd_digits_is_digit: "is_digit (hd (digits n))"
proof (induction n rule: digits.induct)
  case (1 n)
  show ?case
  proof (cases "n < 10")
    case True
    then show ?thesis by (subst digits.simps) (simp add: digit_char_is_digit)
  next
    case False
    with 1 have "is_digit (hd (digits (n div 10)))" by simp
    then show ?thesis
      using False digits_nonempty [of "n div 10"]
      by (subst digits.simps) (simp del: digits.simps)
  qed
qed

lemma is_digit_not_sign: "is_digit c \<Longrightarrow> c \<noteq> CHR ''-'' \<and> c \<noteq> CHR ''+''"
  by (auto simp: is_digit_def)

lemma Atoi_Itoa: "minInt \<le> i \<Longrightarrow> i \<le> maxInt \<Longrightarrow> Atoi (Itoa i) = Inr i"
proof (cases "i < 0")
  case True
  assume "minInt \<le> i" "i \<le> maxInt"
  with True show ?thesis
    using digits_nonempty [of "nat (- i)"]
    by (simp add: Atoi_def Itoa_def parse_digits_digits del: digits.simps)
next
  case False
  assume "minInt \<le> i" "i \<le> maxInt"
  with False show ?thesis
    using digits_nonempty [of "nat i"] is_digit_not_sign [OF hd_digits_is_digit [of "nat i"]]
    by (simp add: Atoi_def Itoa_def parse_digits_digits Let_def del: digits.simps)
qed

lemma parse_make:
  "minInt \<le> i \<Longrightarrow> i \<le> maxInt \<Longrightarrow> parseBatchIndex (makeBatchCheckpointID i) = Inr i"
  by (simp add: parseBatchIndex_def makeBatchCheckpointID_def HasPrefix_def TrimPrefix_def
      Atoi_Itoa)

lemma Get_absent_iff:
  "parseBatchIndex k = Inr i \<Longrightarrow> Get m k = Inr ([], False) \<longleftrightarrow> data m i = None"
  by (simp add: Get_def split: option.splits)

text \<open>
  C9. For every non-negative index \<open>i\<close> of type \<open>int\<close>,
  \<open>parseBatchIndex (makeBatchCheckpointID i)\<close> returns \<open>(i, nil)\<close>. Hence \<open>Set\<close> with the
  checkpoint ID of \<open>i\<close> succeeds and a following \<open>Get\<close> with the same ID returns the
  stored bytes with \<open>found = true\<close> and no error; and \<open>Get\<close> for an index that was never
  set returns \<open>found = false\<close> with no error: it does so on the new store, and a \<open>Set\<close>
  for any other index keeps it so.
\<close>

theorem checkpoint_key_round_trip:
  assumes "0 \<le> i" and "i \<le> maxInt"
  shows "parseBatchIndex (makeBatchCheckpointID i) = Inr i \<and>
         (\<exists>m'. Set m (makeBatchCheckpointID i) b = Inr m' \<and>
               Get m' (makeBatchCheckpointID i) = Inr (b, True)) \<and>
         Get newBatchBridgeStore (makeBatchCheckpointID i) = Inr ([], False) \<and>
         (\<forall>j m0 m1 c. 0 \<le> j \<and> j \<le> maxInt \<and> j \<noteq> i \<and>
               Get m0 (makeBatchCheckpointID i) = Inr ([], False) \<and>
               Set m0 (makeBatchCheckpointID j) c = Inr m1 \<longrightarrow>
               Get m1 (makeBatchCheckpointID i) = Inr ([], False))"
proof -
  have lo: "minInt \<le> i" using assms(1) by (simp add: minInt_def)
  have p: "parseBatchIndex (makeBatchCheckpointID i) = Inr i"
    using lo assms(2) by (rule parse_make)
  have set_get: "\<exists>m'. Set m (makeBatchCheckpointID i) b = Inr m' \<and>
      Get m' (makeBatchCheckpointID i) = Inr (b, True)"
    using p by (simp add: Set_def Get_def)
  have fresh: "Get newBatchBridgeStore (makeBatchCheckpointID i) = Inr ([], False)"
    using p by (simp add: Get_def newBatchBridgeStore_def)
  have other: "Get m1 (makeBatchCheckpointID i) = Inr ([], False)"
    if j: "0 \<le> j" "j \<le> maxInt" "j \<noteq> i"
      and absent: "Get m0 (makeBatchCheckpointID i) = Inr ([], False)"
      and set: "Set m0 (makeBatchCheckpointID j) c = Inr m1"
    for j m0 m1 c
  proof -
    have pj: "parseBatchIndex (makeBatchCheckpointID j) = Inr j"
      using j(1,2) by (intro parse_make) (simp_all add: minInt_def)
    have "data m0 i = None"
      using absent Get_absent_iff [OF p] by simp
    moreover have "m1 = m0\<lparr>data := (data m0)(j \<mapsto> c)\<rparr>"
      using set pj by (simp add: Set_def)
    ultimately have "data m1 i = None"
      using j(3) by simp
    then show ?thesis
      using Get_absent_iff [OF p] by simp
  qed
  from p set_get fresh other show ?thesis by blast
qed

theorem checkpoint_key_round_trip_witness:
  "(0::int) \<le> 7 \<and> 7 \<le> maxInt \<and>
   parseBatchIndex (makeBatchCheckpointID 7) = Inr 7 \<and>
   (\<exists>m'. Set newBatchBridgeStore (makeBatchCheckpointID 7) ''abc'' = Inr m' \<and>
         Get m' (makeBatchCheckpointID 7) = Inr (''abc'', True)) \<and>
   Get newBatchBridgeStore (makeBatchCheckpointID 7) = Inr ([], False)"
proof -
  have h1: "(0::int) \<le> 7" by simp
  have h2: "7 \<le> maxInt" by (simp add: maxInt_def)
  show ?thesis
    using h1 h2 checkpoint_key_round_trip [OF h1 h2, of newBatchBridgeStore "''abc''"]
    by blast
qed

section \<open>Dispatch and arrival\<close>

lemma index_runTask [simp]: "index (runTask ctx runner batchOpts idx x) = idx"
  by (simp add: runTask_def Let_def)

lemma dispatch_in_range:
  "\<forall>idx \<in> set idxs. 0 \<le> idx \<and> idx < int (length eff) \<Longrightarrow>
   dispatch ctx runner batchOpts eff idxs =
     (map (\<lambda>idx. runTask ctx runner batchOpts idx (eff ! nat idx)) idxs, None)"
  by (induction idxs) auto

lemma dispatch_indices:
  "dispatch ctx runner batchOpts eff idxs = (results, p) \<Longrightarrow>
   \<forall>r \<in> set results. 0 \<le> index r \<and> index r < int (length eff)"
  by (induction idxs arbitrary: results p) (auto split: if_splits prod.splits)

lemma dispatch_calls_prefix:
  "dispatch ctx runner batchOpts eff idxs = (results, p) \<Longrightarrow>
   map index results = take (length results) idxs"
  by (induction idxs arbitrary: results p) (auto split: if_splits prod.splits)

lemma dispatch_complete:
  "dispatch ctx runner batchOpts eff idxs = (results, None) \<Longrightarrow> map index results = idxs"
  by (induction idxs arbitrary: results) (auto split: if_splits prod.splits)

lemma mset_arrival:
  "\<forall>rs. mset (sched rs) = mset rs \<Longrightarrow> mset (arrival m sched results) = mset results"
  by (simp add: arrival_def split: list.splits)

lemma arrival_Nil [simp]: "arrival m sched [] = []"
  by (simp add: arrival_def)

section \<open>The collecting loop\<close>

lemma normalErr_sticky:
  "normalErr c = Some e \<Longrightarrow> normalErr (foldl collectOne c arrived) = Some e"
  by (induction arrived arbitrary: c) (auto simp: collectOne_def split: option.splits)

lemma normalErr_none:
  "normalErr c = None \<Longrightarrow> \<forall>r \<in> set arrived. \<not> ordinaryFailure r \<Longrightarrow>
   normalErr (foldl collectOne c arrived) = None"
  by (induction arrived arbitrary: c)
     (auto simp: collectOne_def ordinaryFailure_def split: option.splits)

lemma normalErr_first:
  assumes "normalErr c = None" "\<forall>q \<in> set pre. \<not> ordinaryFailure q"
    "err r = Some e" "ExtractInterruptInfo e = None"
  shows "normalErr (foldl collectOne c (pre @ r # post)) = Some (TaskFailed (index r) e)"
proof -
  have "normalErr (foldl collectOne c pre) = None"
    using assms(1,2) by (rule normalErr_none)
  then have "normalErr (collectOne (foldl collectOne c pre) r) = Some (TaskFailed (index r) e)"
    using assms(3,4) by (simp add: collectOne_def)
  then show ?thesis
    by (simp add: normalErr_sticky)
qed



lemma outputs_untouched:
  "\<forall>r \<in> set arrived. err r = None \<longrightarrow> nat (index r) \<noteq> k \<Longrightarrow>
   outputs (foldl collectOne c arrived) ! k = outputs c ! k"
  by (induction arrived arbitrary: c) (auto simp: collectOne_def split: option.splits)


section \<open>Preparation\<close>

lemma prepare_first_run:
  "\<not> isResume ctx \<Longrightarrow>
   prepare b ctx inputs =
     Inr (inputs, map int [0 ..< length inputs], replicate (length inputs) (zeroO b))"
  by (simp add: prepare_def)

text \<open>The definitions that evaluating a run of the example unfolds.\<close>

lemmas eval_defs =
  invoke_def prepare_def isResume_def resumed_def background_def makeSlice_def
  reviewNode_def compileOpts_def docs_def noOptions_def runTask_def Let_def
  AppendAddressSegment_def collect_def collectOne_def finish_def arrival_def
  zeroResult_def zeroRequest_def firstSuspension_def secondSuspension_def corruptState_def
  negativeKeyState_def largeKeyState_def reviewed2_def reviewed4_def approved1_def approved3_def
  eval_nat_numeral

section \<open>The three results of a run\<close>



text \<open>
  C2. Fail-fast on ordinary failure. In every run that reaches the collecting loop (the
  state was restored, the task compiled, every task was dispatched) and in which at
  least one collected outcome carries an ordinary error, the arrival order splits at the
  first such outcome \<open>r\<close>, and \<open>invoke\<close> returns nil outputs with the error that wraps
  the error of \<open>r\<close> and names the index of \<open>r\<close>. The returned value holds nothing of any
  other outcome. The order is the arrival order, whatever \<open>sched\<close> makes of it: in the
  example below the documents at indices 1 and 4 fail, and the error names index 4 when
  the result of index 4 arrives first and index 1 when the batch runs sequentially.
\<close>

theorem fail_fast_first_observed:
  fixes b :: "('i, 'o) Node"
  assumes prep: "prepare b ctx inputs = Inr (effectiveInputs, indicesToProcess, outs)"
    and comp: "innerTask b ctx (compileOpts b) = Inr runner"
    and conc: "0 \<le> maxConcurrency b"
    and disp: "dispatch ctx runner batchOpts effectiveInputs indicesToProcess = (results, None)"
    and some: "\<exists>q \<in> set (arrival (maxConcurrency b) sched results). ordinaryFailure q"
  shows "\<exists>pre r post e.
           arrival (maxConcurrency b) sched results = pre @ r # post \<and>
           (\<forall>q \<in> set pre. \<not> ordinaryFailure q) \<and>
           err r = Some e \<and> ExtractInterruptInfo e = None \<and>
           snd (invoke b ctx inputs batchOpts sched) = Failed (TaskFailed (index r) e)"
proof -
  define arrived where "arrived = arrival (maxConcurrency b) sched results"
  from some obtain pre r post where
    split: "arrived = pre @ r # post" and r: "ordinaryFailure r"
    and pre: "\<forall>q \<in> set pre. \<not> ordinaryFailure q"
    unfolding arrived_def [symmetric] by (auto dest!: split_list_first_prop)
  from r obtain e where e: "err r = Some e" "ExtractInterruptInfo e = None"
    by (auto simp: ordinaryFailure_def split: option.splits)
  have "results \<noteq> []"
    using split by (auto simp: arrived_def)
  then have nonempty: "indicesToProcess \<noteq> []"
    using disp by auto
  have "normalErr (collect outs arrived :: ('i, 'o) collector) = Some (TaskFailed (index r) e)"
    unfolding collect_def split
    by (rule normalErr_first) (simp_all add: pre e)
  then have "finish effectiveInputs (collect outs arrived) = Failed (TaskFailed (index r) e)"
    by (simp add: finish_def)
  then have "snd (invoke b ctx inputs batchOpts sched) = Failed (TaskFailed (index r) e)"
    using prep comp conc disp nonempty by (simp add: invoke_def arrived_def)
  with split pre e show ?thesis
    unfolding arrived_def by blast
qed

theorem fail_fast_first_observed_witness:
  "0 \<le> maxConcurrency (reviewNode validatingReview 2) \<and>
   snd (invoke (reviewNode validatingReview 2) background (docs @ [docs ! 1]) noOptions rev) =
     Failed (TaskFailed 4
       (OrdinaryError ''validation failed for document DOC-002: content too short'')) \<and>
   snd (invoke (reviewNode validatingReview 0) background (docs @ [docs ! 1]) noOptions rev) =
     Failed (TaskFailed 1
       (OrdinaryError ''validation failed for document DOC-002: content too short''))"
proof -
  let ?b = "reviewNode validatingReview 2"
  let ?docs = "docs @ [docs ! 1]"
  let ?r = "\<lambda>i. runTask background validatingReview noOptions (int i) (?docs ! i)"
  have prep: "prepare ?b background ?docs =
      Inr (?docs, map int [0 ..< length ?docs], replicate (length ?docs) (zeroO ?b))"
    by (rule prepare_first_run) (simp add: isResume_def background_def)
  have comp: "innerTask ?b background (compileOpts ?b) = Inr validatingReview"
    by (simp add: reviewNode_def)
  have conc: "0 \<le> maxConcurrency ?b"
    by (simp add: reviewNode_def)
  have disp: "dispatch background validatingReview noOptions ?docs (map int [0 ..< length ?docs]) =
      ([?r 0, ?r 1, ?r 2, ?r 3, ?r 4], None)"
    by (simp add: docs_def upt_rec)
  have arr: "arrival (maxConcurrency ?b) rev [?r 0, ?r 1, ?r 2, ?r 3, ?r 4] =
      [?r 0, ?r 4, ?r 3, ?r 2, ?r 1]"
    by (simp add: arrival_def reviewNode_def)
  have bad: "ordinaryFailure (?r 4)"
    by (simp add: ordinaryFailure_def runTask_def Let_def docs_def)
  have good: "\<not> ordinaryFailure (?r 0)"
    by (simp add: ordinaryFailure_def runTask_def Let_def docs_def)
  have some: "\<exists>q \<in> set (arrival (maxConcurrency ?b) rev [?r 0, ?r 1, ?r 2, ?r 3, ?r 4]).
      ordinaryFailure q"
    unfolding arr using bad by simp
  from fail_fast_first_observed [OF prep comp conc disp some]
  obtain pre r post e where
    split: "[?r 0, ?r 4, ?r 3, ?r 2, ?r 1] = pre @ r # post"
    and pre: "\<forall>q \<in> set pre. \<not> ordinaryFailure q"
    and e: "err r = Some e" "ExtractInterruptInfo e = None"
    and res: "snd (invoke ?b background ?docs noOptions rev) = Failed (TaskFailed (index r) e)"
    unfolding arr by blast
  have r: "ordinaryFailure r"
    using e by (simp add: ordinaryFailure_def)
  have "pre = [?r 0] \<and> r = ?r 4"
  proof (cases pre)
    case Nil
    then have "r = ?r 0" using split by simp
    then show ?thesis using r good by simp
  next
    case (Cons a pre')
    then have a: "a = ?r 0" and rest: "[?r 4, ?r 3, ?r 2, ?r 1] = pre' @ r # post"
      using split by simp_all
    show ?thesis
    proof (cases pre')
      case Nil
      then show ?thesis using a rest Cons by simp
    next
      case (Cons a' pre'')
      then have "a' = ?r 4" using rest by simp
      then have "?r 4 \<in> set pre" using \<open>pre = a # pre'\<close> Cons by simp
      then show ?thesis using pre bad by blast
    qed
  qed
  then have "index r = 4" "e = OrdinaryError ''validation failed for document DOC-002: content too short''"
    using e(1) by (simp_all add: runTask_def Let_def docs_def)
  with res conc show ?thesis
    by (simp add: eval_defs upt_rec ordinaryFailure_def)
qed

text \<open>
  C8. Dispatch-error abort. In every invocation that reaches the compilation of the inner
  task and in which the compilation fails, \<open>invoke\<close> returns nil outputs and the error
  that wraps the compile error, and the runner is called for no index.
\<close>

theorem compile_failure_aborts:
  assumes "prepare b ctx inputs = Inr prep"
    and "innerTask b ctx (compileOpts b) = Inl e"
  shows "invoke b ctx inputs batchOpts sched = ([], Failed (CompileFailed e))"
  using assms by (cases prep) (simp add: invoke_def)

theorem compile_failure_aborts_witness:
  "invoke brokenNode background docs noOptions rev =
     ([], Failed (CompileFailed (OrdinaryError ''graph has no end node'')))"
proof -
  have prep: "prepare brokenNode background docs =
      Inr (docs, map int [0 ..< length docs], replicate (length docs) (zeroO brokenNode))"
    by (rule prepare_first_run) (simp add: isResume_def background_def)
  have comp: "innerTask brokenNode background (compileOpts brokenNode) =
      Inl (OrdinaryError ''graph has no end node'')"
    by (simp add: brokenNode_def)
  show ?thesis
    using compile_failure_aborts [OF prep comp] .
qed

text \<open>
  C7, as stated, fails: with zero items and an inner task that does not compile, the set
  of indices to process is empty and \<open>invoke\<close> returns the compile error, not an empty
  output sequence. The task is compiled before the set is looked at.
\<close>

theorem empty_batch_compile_error:
  "prepare brokenNode background [] = Inr ([], [], []) \<and>
   invoke brokenNode background [] noOptions rev =
     ([], Failed (CompileFailed (OrdinaryError ''graph has no end node'')))"
  by (simp add: invoke_def prepare_def isResume_def background_def brokenNode_def)

text \<open>
  C7, amended. In every invocation whose set of indices to process is empty, no sub-task
  is dispatched, and \<open>invoke\<close> returns the restored output collection with a nil error
  when the inner task compiles, and the compile error when it does not. On a first run
  the set is empty only for zero items, and the output sequence is then empty.
\<close>

theorem nothing_to_process:
  assumes "prepare b ctx inputs = Inr (effectiveInputs, [], outs)"
  shows "invoke b ctx inputs batchOpts sched =
           (case innerTask b ctx (compileOpts b) of
              Inl e \<Rightarrow> ([], Failed (CompileFailed e))
            | Inr runner \<Rightarrow> ([], Outputs outs)) \<and>
         (\<not> isResume ctx \<longrightarrow> inputs = [] \<and> outs = [])"
proof -
  have "\<not> isResume ctx \<Longrightarrow> inputs = [] \<and> outs = []"
    using assms by (auto simp: prepare_first_run)
  then show ?thesis
    using assms by (auto simp: invoke_def split: sum.splits)
qed


theorem nothing_to_process_witness:
  "prepare (reviewNode simpleReview 0) background [] = Inr ([], [], []) \<and>
   invoke (reviewNode simpleReview 0) background [] noOptions rev = ([], Outputs [])"
proof -
  have prep: "prepare (reviewNode simpleReview 0) background [] = Inr ([], [], [])"
    by (simp add: prepare_def isResume_def background_def)
  show ?thesis
    using prep nothing_to_process [OF prep, of noOptions rev]
    by (simp add: reviewNode_def)
qed

section \<open>Restoring the state of a suspended run\<close>

lemma restoreInputs_in_range:
  "i + length vs \<le> length eff \<Longrightarrow>
   \<exists>eff'. restoreInputs i vs eff = Inr eff' \<and> length eff' = length eff \<and>
     (\<forall>j < length eff. eff' ! j =
        (if i \<le> j \<and> j < i + length vs
         then (case assertI (vs ! (j - i)) of Some x \<Rightarrow> x | None \<Rightarrow> eff ! j)
         else eff ! j))"
proof (induction vs arbitrary: i eff)
  case Nil
  then show ?case by auto
next
  case (Cons v vs)
  define eff1 where "eff1 = (case assertI v of Some x \<Rightarrow> eff[i := x] | None \<Rightarrow> eff)"
  have len1: "length eff1 = length eff"
    by (simp add: eff1_def split: option.splits)
  have step: "restoreInputs i (v # vs) eff = restoreInputs (Suc i) vs eff1"
    using Cons.prems by (simp add: eff1_def split: option.splits)
  have "Suc i + length vs \<le> length eff1"
    using Cons.prems len1 by simp
  from Cons.IH [OF this] obtain eff' where
    r: "restoreInputs (Suc i) vs eff1 = Inr eff'" and l: "length eff' = length eff1"
    and n: "\<forall>j < length eff1. eff' ! j =
        (if Suc i \<le> j \<and> j < Suc i + length vs
         then (case assertI (vs ! (j - Suc i)) of Some x \<Rightarrow> x | None \<Rightarrow> eff1 ! j)
         else eff1 ! j)"
    by blast
  have "eff' ! j =
        (if i \<le> j \<and> j < i + length (v # vs)
         then (case assertI ((v # vs) ! (j - i)) of Some x \<Rightarrow> x | None \<Rightarrow> eff ! j)
         else eff ! j)" if j: "j < length eff" for j
  proof (cases "j = i")
    case True
    then have "eff' ! j = eff1 ! i"
      using n j len1 by simp
    then show ?thesis
      using True j by (simp add: eff1_def split: option.splits)
  next
    case False
    then have e1: "eff1 ! j = eff ! j"
      by (simp add: eff1_def split: option.splits)
    show ?thesis
    proof (cases "i < j")
      case True
      then have "(v # vs) ! (j - i) = vs ! (j - Suc i)"
        by (simp add: nth_Cons')
      then show ?thesis
        using n j len1 e1 True by (auto split: option.splits)
    next
      case False
      then show ?thesis
        using n j len1 e1 \<open>j \<noteq> i\<close> by (auto split: option.splits)
    qed
  qed
  then show ?case
    using step r l len1 by simp
qed

lemma restoreResults_skip:
  "int (length outs) \<le> idx \<Longrightarrow> restoreResults ((idx, v) # rest) outs = restoreResults rest outs"
  by simp

lemma restoreResults_nonneg:
  "distinct (map fst kvs) \<Longrightarrow> \<forall>(k, v) \<in> set kvs. 0 \<le> k \<Longrightarrow>
   \<exists>outs'. restoreResults kvs outs = Inr outs' \<and> length outs' = length outs \<and>
     (\<forall>j < length outs. outs' ! j =
        (case map_of kvs (int j) of
           Some v \<Rightarrow> (case assertO v of Some y \<Rightarrow> y | None \<Rightarrow> outs ! j)
         | None \<Rightarrow> outs ! j))"
proof (induction kvs arbitrary: outs)
  case Nil
  then show ?case by simp
next
  case (Cons kv kvs)
  obtain k v where kv: "kv = (k, v)" by (cases kv)
  have k0: "0 \<le> k" and fresh: "map_of kvs k = None"
    and d: "distinct (map fst kvs)" and nn: "\<forall>(k, v) \<in> set kvs. 0 \<le> k"
    using Cons.prems kv by (auto simp: map_of_eq_None_iff)
  define outs1 where
    "outs1 = (if k < int (length outs)
              then (case assertO v of Some y \<Rightarrow> outs[nat k := y] | None \<Rightarrow> outs) else outs)"
  have len1: "length outs1 = length outs"
    by (simp add: outs1_def split: option.splits)
  have step: "restoreResults (kv # kvs) outs = restoreResults kvs outs1"
    using k0 by (simp add: kv outs1_def split: option.splits)
  from Cons.IH [OF d nn, of outs1] obtain outs' where
    r: "restoreResults kvs outs1 = Inr outs'" and l: "length outs' = length outs1"
    and n: "\<forall>j < length outs1. outs' ! j =
        (case map_of kvs (int j) of
           Some v \<Rightarrow> (case assertO v of Some y \<Rightarrow> y | None \<Rightarrow> outs1 ! j)
         | None \<Rightarrow> outs1 ! j)"
    by blast
  have "outs' ! j =
        (case map_of (kv # kvs) (int j) of
           Some v \<Rightarrow> (case assertO v of Some y \<Rightarrow> y | None \<Rightarrow> outs ! j)
         | None \<Rightarrow> outs ! j)" if j: "j < length outs" for j
  proof (cases "int j = k")
    case True
    then have "outs' ! j = outs1 ! j"
      using n j len1 fresh by simp
    moreover have "nat k = j" using True by simp
    ultimately show ?thesis
      using True j by (simp add: kv outs1_def split: option.splits)
  next
    case False
    then have "nat k \<noteq> j" using k0 by auto
    then have "outs1 ! j = outs ! j"
      by (simp add: outs1_def split: option.splits)
    then show ?thesis
      using n j len1 False by (simp add: kv split: option.splits)
  qed
  then show ?case
    using step r l len1 by simp
qed

lemma prepare_resume:
  fixes b :: "('i, 'o) Node"
  assumes res: "isResume ctx" and st: "prevState ctx = Some st"
    and total: "int (length (OriginalInputs st)) \<le> TotalCount st"
    and keys: "distinct (map fst (CompletedResults st))"
    and nonneg: "\<forall>(k, v) \<in> set (CompletedResults st). 0 \<le> k"
  shows "prepare b ctx inputs =
           Inr (restoredInputs b st, InterruptedIndices st, restoredOutputs b st)"
proof -
  define n where "n = nat (TotalCount st)"
  have n0: "0 \<le> TotalCount st" using total by linarith
  have mk: "makeSlice (zeroI b) (TotalCount st) = Inr (replicate n (zeroI b))"
    using n0 by (simp add: makeSlice_def n_def)
  have "0 + length (OriginalInputs st) \<le> length (replicate n (zeroI b))"
    using total by (simp add: n_def)
  from restoreInputs_in_range [OF this] obtain eff where
    ri: "restoreInputs 0 (OriginalInputs st) (replicate n (zeroI b)) = Inr eff"
    and le0: "length eff = length (replicate n (zeroI b))"
    and ne0: "\<forall>j < length (replicate n (zeroI b)). eff ! j =
        (if 0 \<le> j \<and> j < 0 + length (OriginalInputs st)
         then (case assertI (OriginalInputs st ! (j - 0)) of
                 Some x \<Rightarrow> x | None \<Rightarrow> replicate n (zeroI b) ! j)
         else replicate n (zeroI b) ! j)"
    by blast
  have le: "length eff = n" using le0 by simp
  have ne: "eff ! j =
        (if j < length (OriginalInputs st)
         then (case assertI (OriginalInputs st ! j) of Some x \<Rightarrow> x | None \<Rightarrow> zeroI b)
         else zeroI b)" if "j < n" for j
    using ne0 that by (simp split: option.splits)
  from restoreResults_nonneg [OF keys nonneg, of "replicate n (zeroO b)"] obtain outs where
    rr: "restoreResults (CompletedResults st) (replicate n (zeroO b)) = Inr outs"
    and lo0: "length outs = length (replicate n (zeroO b))"
    and no0: "\<forall>j < length (replicate n (zeroO b)). outs ! j =
        (case map_of (CompletedResults st) (int j) of
           Some v \<Rightarrow> (case assertO v of Some y \<Rightarrow> y | None \<Rightarrow> replicate n (zeroO b) ! j)
         | None \<Rightarrow> replicate n (zeroO b) ! j)"
    by blast
  have lo: "length outs = n" using lo0 by simp
  have no: "outs ! j =
        (case map_of (CompletedResults st) (int j) of
           Some v \<Rightarrow> (case assertO v of Some y \<Rightarrow> y | None \<Rightarrow> zeroO b)
         | None \<Rightarrow> zeroO b)" if "j < n" for j
    using no0 that by (simp split: option.splits)
  have e: "eff = map (\<lambda>j. case (if j < length (OriginalInputs st)
                          then assertI (OriginalInputs st ! j) else None) of
                      Some x \<Rightarrow> x | None \<Rightarrow> zeroI b) [0 ..< n]"
    by (rule nth_equalityI) (simp_all add: le ne)
  have o: "outs = map (\<lambda>j. case map_of (CompletedResults st) (int j) of
                      Some v \<Rightarrow> (case assertO v of Some y \<Rightarrow> y | None \<Rightarrow> zeroO b)
                    | None \<Rightarrow> zeroO b) [0 ..< n]"
    by (rule nth_equalityI) (simp_all add: lo no)
  have "prepare b ctx inputs = Inr (eff, InterruptedIndices st, outs)"
    using res st mk ri rr le by (simp add: prepare_def)
  then show ?thesis
    using e o by (simp add: n_def restoredInputs_def restoredOutputs_def)
qed


text \<open>
  C4. Resume re-execution exactness. In every resumed invocation that carries a valid
  interrupt state, whose inner task compiles and whose bound is not negative, the indices
  for which the runner is called are exactly the state's \<open>InterruptedIndices\<close>, in that
  order; no key of \<open>CompletedResults\<close> is among them; the output slots are prepared with
  the stored output of every such key; and when the run returns outputs, the stored
  output is still in its slot.
\<close>

theorem resume_reexecutes_exactly:
  fixes b :: "('i, 'o) Node"
  assumes res: "isResume ctx" and st: "prevState ctx = Some st"
    and valid: "valid_state st"
    and comp: "innerTask b ctx (compileOpts b) = Inr runner"
    and conc: "0 \<le> maxConcurrency b"
    and perm: "\<forall>rs. mset (sched rs) = mset rs"
  shows "fst (invoke b ctx inputs batchOpts sched) = InterruptedIndices st \<and>
         (\<forall>(k, v) \<in> set (CompletedResults st). k \<notin> set (fst (invoke b ctx inputs batchOpts sched))) \<and>
         prepare b ctx inputs =
           Inr (restoredInputs b st, InterruptedIndices st, restoredOutputs b st) \<and>
         (\<forall>(k, v) \<in> set (CompletedResults st).
             assertO v = Some (restoredOutputs b st ! nat k)) \<and>
         (\<forall>final. snd (invoke b ctx inputs batchOpts sched) = Outputs final \<longrightarrow>
             (\<forall>(k, v) \<in> set (CompletedResults st). assertO v = Some (final ! nat k)))"
proof -
  define n where "n = nat (TotalCount st)"
  define eff where "eff = restoredInputs b st"
  define outs where "outs = restoredOutputs b st"
  have total: "int (length (OriginalInputs st)) \<le> TotalCount st"
    and keys: "distinct (map fst (CompletedResults st))"
    and range: "\<forall>idx \<in> set (InterruptedIndices st). 0 \<le> idx \<and> idx < TotalCount st"
    and compl: "\<forall>(k, v) \<in> set (CompletedResults st). 0 \<le> k \<and> k < TotalCount st \<and> assertO v \<noteq> None"
    and disj: "set (InterruptedIndices st) \<inter> fst ` set (CompletedResults st) = {}"
    using valid unfolding valid_state_def by auto
  have nonneg: "\<forall>(k, v) \<in> set (CompletedResults st). 0 \<le> k"
    using compl by auto
  have prep: "prepare b ctx inputs = Inr (eff, InterruptedIndices st, outs)"
    unfolding eff_def outs_def by (rule prepare_resume [OF res st total keys nonneg])
  have leff: "length eff = n" and louts: "length outs = n"
    by (simp_all add: eff_def outs_def n_def restoredInputs_def restoredOutputs_def)
  have stored: "assertO v = Some (outs ! nat k)" if kv: "(k, v) \<in> set (CompletedResults st)" for k v
  proof -
    have k: "0 \<le> k" "k < TotalCount st" "assertO v \<noteq> None"
      using compl kv by auto
    have "map_of (CompletedResults st) k = Some v"
      using keys kv by simp
    then show ?thesis
      using k by (auto simp: outs_def restoredOutputs_def)
  qed
  have inr: "\<forall>idx \<in> set (InterruptedIndices st). 0 \<le> idx \<and> idx < int (length eff)"
    using range by (auto simp: leff n_def)
  define results where
    "results = map (\<lambda>idx. runTask ctx runner batchOpts idx (eff ! nat idx)) (InterruptedIndices st)"
  have disp: "dispatch ctx runner batchOpts eff (InterruptedIndices st) = (results, None)"
    unfolding results_def using inr by (rule dispatch_in_range)
  have idx: "map index results = InterruptedIndices st"
    by (simp add: results_def comp_def)
  define c :: "('i, 'o) collector" where
    "c = collect outs (arrival (maxConcurrency b) sched results)"
  have inv: "invoke b ctx inputs batchOpts sched =
      (if InterruptedIndices st = [] then ([], Outputs outs)
       else (InterruptedIndices st, finish eff c))"
    using prep comp conc disp idx by (simp add: invoke_def c_def)
  then have calls: "fst (invoke b ctx inputs batchOpts sched) = InterruptedIndices st"
    by simp
  have never: "k \<notin> set (InterruptedIndices st)" if "(k, v) \<in> set (CompletedResults st)" for k v
    using disj that by (metis IntI empty_iff fst_conv imageI)
  have kept: "assertO v = Some (final ! nat k)"
    if fin: "snd (invoke b ctx inputs batchOpts sched) = Outputs final"
      and kv: "(k, v) \<in> set (CompletedResults st)" for final k v
  proof (cases "InterruptedIndices st = []")
    case True
    then have "final = outs" using inv fin by simp
    then show ?thesis using stored [OF kv] by simp
  next
    case False
    then have "finish eff c = Outputs final" using inv fin by simp
    then have final: "final = outputs c"
      by (auto simp: finish_def split: option.splits if_splits)
    have "mset (arrival (maxConcurrency b) sched results) = mset results"
      using perm by (rule mset_arrival)
    then have sa: "set (arrival (maxConcurrency b) sched results) = set results"
      by (rule mset_eq_setD)
    have k0: "0 \<le> k" using compl kv by auto
    have "\<forall>r \<in> set (arrival (maxConcurrency b) sched results).
            err r = None \<longrightarrow> nat (index r) \<noteq> nat k"
    proof (intro ballI impI)
      fix r assume "r \<in> set (arrival (maxConcurrency b) sched results)"
      then have r: "r \<in> set results" using sa by simp
      then have "index r \<in> set (InterruptedIndices st)"
        using idx by (metis imageI set_map)
      then have "index r \<noteq> k" "0 \<le> index r"
        using never [OF kv] range by auto
      then show "nat (index r) \<noteq> nat k"
        using k0 by simp
    qed
    then have "outputs c ! nat k = outs ! nat k"
      unfolding c_def collect_def by (subst outputs_untouched) simp_all
    then show ?thesis
      using final stored [OF kv] by simp
  qed
  show ?thesis
    using calls never prep stored kept
    unfolding eff_def outs_def by (auto simp del: split_paired_All)
qed


theorem resume_reexecutes_exactly_witness:
  "isResume (resumed firstSuspension) \<and> valid_state firstSuspension \<and>
   fst (invoke (reviewNode (humanReview [''DOC-001'', ''DOC-003'']) 2) (resumed firstSuspension) []
          noOptions rev) = [0, 2] \<and>
   snd (invoke (reviewNode (humanReview [''DOC-001'', ''DOC-003'']) 2) (resumed firstSuspension) []
          noOptions rev) = Outputs [approved1, reviewed2, approved3, reviewed4]"
proof -
  let ?b = "reviewNode (humanReview [''DOC-001'', ''DOC-003'']) 2"
  have res: "isResume (resumed firstSuspension)"
    by (simp add: isResume_def resumed_def)
  have st: "prevState (resumed firstSuspension) = Some firstSuspension"
    by (simp add: resumed_def)
  have valid: "valid_state firstSuspension"
    by (simp add: valid_state_def firstSuspension_def docs_def)
  have comp: "innerTask ?b (resumed firstSuspension) (compileOpts ?b) =
      Inr (humanReview [''DOC-001'', ''DOC-003''])"
    by (simp add: reviewNode_def)
  have conc: "0 \<le> maxConcurrency ?b"
    by (simp add: reviewNode_def)
  have perm: "\<forall>rs :: ReviewResult taskResult list. mset (rev rs) = mset rs"
    by simp
  have calls: "fst (invoke ?b (resumed firstSuspension) [] noOptions rev) = [0, 2]"
    using resume_reexecutes_exactly [OF res st valid comp conc perm, of "[]" noOptions]
    by (simp add: firstSuspension_def)
  have outs: "snd (invoke ?b (resumed firstSuspension) [] noOptions rev) =
      Outputs [approved1, reviewed2, approved3, reviewed4]"
    by (simp add: eval_defs)
  from res valid calls outs show ?thesis by simp
qed

text \<open>
  C6, as stated, fails: a resumed invocation whose state holds a stored input and a
  stored result of the wrong dynamic type returns outputs and a nil error, with the zero
  value in the slot of the result that did not convert.
\<close>

theorem resume_conversion_failure_unreported:
  "assertI (OriginalInputs corruptState ! 0) = None \<and>
   assertO (snd (CompletedResults corruptState ! 0)) = None \<and>
   invoke (reviewNode simpleReview 0) (resumed corruptState) [] noOptions rev =
     ([], Outputs [zeroResult, reviewed2])"
  by (simp add: eval_defs)

text \<open>
  C6, amended. In a resumed invocation whose state has at most \<open>TotalCount\<close> stored
  inputs and one entry per result key, none negative, restoring reports nothing: a stored
  input or result that does not convert to \<open>I\<close> or \<open>O\<close> is skipped and its slot holds the
  zero value, and the invocation goes on with the restored values; it returns them with a
  nil error when nothing is left to process and the inner task compiles.
\<close>

theorem resume_restores_without_error:
  fixes b :: "('i, 'o) Node"
  assumes res: "isResume ctx" and st: "prevState ctx = Some st"
    and total: "int (length (OriginalInputs st)) \<le> TotalCount st"
    and keys: "distinct (map fst (CompletedResults st))"
    and nonneg: "\<forall>(k, v) \<in> set (CompletedResults st). 0 \<le> k"
  shows "prepare b ctx inputs =
           Inr (restoredInputs b st, InterruptedIndices st, restoredOutputs b st) \<and>
         (InterruptedIndices st = [] \<longrightarrow>
            (\<forall>runner. innerTask b ctx (compileOpts b) = Inr runner \<longrightarrow>
               invoke b ctx inputs batchOpts sched = ([], Outputs (restoredOutputs b st))))"
proof -
  have prep: "prepare b ctx inputs =
      Inr (restoredInputs b st, InterruptedIndices st, restoredOutputs b st)"
    by (rule prepare_resume [OF res st total keys nonneg])
  then show ?thesis
    by (simp add: invoke_def)
qed

theorem resume_restores_without_error_witness:
  "isResume (resumed corruptState) \<and>
   prepare (reviewNode simpleReview 0) (resumed corruptState) [] =
     Inr ([zeroRequest, docs ! 1], [], [zeroResult, reviewed2]) \<and>
   invoke (reviewNode simpleReview 0) (resumed corruptState) [] noOptions rev =
     ([], Outputs [zeroResult, reviewed2])"
proof -
  let ?b = "reviewNode simpleReview 0"
  have res: "isResume (resumed corruptState)"
    by (simp add: isResume_def resumed_def)
  have st: "prevState (resumed corruptState) = Some corruptState"
    by (simp add: resumed_def)
  have total: "int (length (OriginalInputs corruptState)) \<le> TotalCount corruptState"
    by (simp add: corruptState_def)
  have keys: "distinct (map fst (CompletedResults corruptState))"
    by (simp add: corruptState_def)
  have nonneg: "\<forall>(k, v) \<in> set (CompletedResults corruptState). 0 \<le> k"
    by (simp add: corruptState_def)
  have ri: "restoredInputs ?b corruptState = [zeroRequest, docs ! 1]"
    by (simp add: restoredInputs_def corruptState_def reviewNode_def upt_rec)
  have ro: "restoredOutputs ?b corruptState = [zeroResult, reviewed2]"
    by (simp add: restoredOutputs_def corruptState_def reviewNode_def upt_rec)
  have none: "InterruptedIndices corruptState = []"
    by (simp add: corruptState_def)
  have comp: "innerTask ?b (resumed corruptState) (compileOpts ?b) = Inr simpleReview"
    by (simp add: reviewNode_def)
  show ?thesis
    using res none comp ri ro
      resume_restores_without_error [OF res st total keys nonneg, of ?b "[]" noOptions rev]
    by simp
qed

text \<open>
  C10, at its failing input. A result key past the end of the output slice is skipped,
  as the claim says, but restoring is not total for arbitrary keys: the guard
  \<open>idx < len(outputs)\<close> lets a negative key through, and the write \<open>outputs[idx]\<close>
  panics.
\<close>

theorem negative_result_key_panics:
  "invoke (reviewNode simpleReview 0) (resumed largeKeyState) [] noOptions rev =
     ([0, 2], Outputs [ReviewResult ''DOC-001'' True ''Auto-reviewed document DOC-001 with priority high'',
                       zeroResult,
                       ReviewResult ''DOC-003'' True ''Auto-reviewed document DOC-003 with priority high'',
                       reviewed4]) \<and>
   invoke (reviewNode simpleReview 0) (resumed negativeKeyState) [] noOptions rev =
     ([], Panicked (IndexOutOfRange (- 1) 4))"
  by (simp add: eval_defs)

text \<open>
  C3, at its failing input. The first run of scenario 6 suspends \<open>DOC-001\<close> and
  \<open>DOC-003\<close> and its state holds the results of \<open>DOC-002\<close> and \<open>DOC-004\<close>. The resumed
  run completes \<open>DOC-001\<close> and suspends \<open>DOC-003\<close> again: the state it builds holds the
  result of \<open>DOC-001\<close> alone, since \<open>completedResults\<close> starts empty and the restored
  results are written to the output slice only. The next resume returns zero values for
  \<open>DOC-002\<close> and \<open>DOC-004\<close>.
\<close>

theorem resuspension_drops_completed_results:
  "invoke (reviewNode (humanReview []) 0) background docs noOptions rev =
     ([0, 1, 2, 3],
      Failed (CompositeInterrupt firstSuspension
                [InterruptSignal ''DOC-001'', InterruptSignal ''DOC-003''])) \<and>
   invoke (reviewNode (humanReview [''DOC-001'']) 0) (resumed firstSuspension) [] noOptions rev =
     ([0, 2], Failed (CompositeInterrupt secondSuspension [InterruptSignal ''DOC-003''])) \<and>
   CompletedResults secondSuspension = [(0, AnyO approved1)] \<and>
   invoke (reviewNode (humanReview [''DOC-001'', ''DOC-003'']) 0) (resumed secondSuspension) []
       noOptions rev =
     ([2], Outputs [approved1, zeroResult, approved3, zeroResult])"
  by (simp add: eval_defs upt_rec)


section \<open>The bundle of a first run\<close>

lemma collectOne_cases:
  "err r = None \<Longrightarrow>
     collectOne c r = c\<lparr>outputs := (outputs c)[nat (index r) := output' r],
       completedResults := AList.update (index r) (AnyO (output' r)) (completedResults c)\<rparr>"
  "suspended r \<Longrightarrow>
     collectOne c r = c\<lparr>interruptErrs := interruptErrs c @ [the (err r)],
       interruptedIndices := interruptedIndices c @ [index r]\<rparr>"
  "ordinaryFailure r \<Longrightarrow> normalErr c \<noteq> None \<Longrightarrow> collectOne c r = c"
  by (auto simp: collectOne_def suspended_def ordinaryFailure_def split: option.splits)

lemma outcome_cases: "err r = None \<or> suspended r \<or> ordinaryFailure r"
  by (auto simp: suspended_def ordinaryFailure_def split: option.splits)

lemma interrupts_collected:
  "\<forall>r \<in> set arrived. \<not> ordinaryFailure r \<Longrightarrow>
   interruptedIndices (foldl collectOne c arrived) =
     interruptedIndices c @ map index (filter suspended arrived) \<and>
   interruptErrs (foldl collectOne c arrived) =
     interruptErrs c @ map (\<lambda>r. the (err r)) (filter suspended arrived)"
proof (induction arrived arbitrary: c)
  case Nil
  then show ?case by simp
next
  case (Cons a arrived)
  then have ih: "interruptedIndices (foldl collectOne (collectOne c a) arrived) =
     interruptedIndices (collectOne c a) @ map index (filter suspended arrived) \<and>
   interruptErrs (foldl collectOne (collectOne c a) arrived) =
     interruptErrs (collectOne c a) @ map (\<lambda>r. the (err r)) (filter suspended arrived)"
    by simp
  have "\<not> ordinaryFailure a" using Cons.prems by simp
  then consider "err a = None" "\<not> suspended a" | "suspended a"
    using outcome_cases [of a] by (auto simp: suspended_def)
  then show ?case
  proof cases
    case 1
    then show ?thesis using ih by (simp add: collectOne_cases(1))
  next
    case 2
    then show ?thesis using ih by (simp add: collectOne_cases(2))
  qed
qed

lemma completed_keys:
  "fst ` set (completedResults (foldl collectOne c arrived)) =
     fst ` set (completedResults c) \<union> {index r | r. r \<in> set arrived \<and> err r = None}"
proof (induction arrived arbitrary: c)
  case Nil
  then show ?case by simp
next
  case (Cons a arrived)
  have "fst ` set (completedResults (collectOne c a)) =
      fst ` set (completedResults c) \<union> (if err a = None then {index a} else {})"
    by (auto simp: collectOne_def dom_update split: option.splits)
  then show ?case
    using Cons.IH [of "collectOne c a"] by auto
qed

lemma completed_distinct:
  "distinct (map fst (completedResults c)) \<Longrightarrow>
   distinct (map fst (completedResults (foldl collectOne c arrived)))"
proof (induction arrived arbitrary: c)
  case Nil
  then show ?case by simp
next
  case (Cons a arrived)
  have "distinct (map fst (completedResults (collectOne c a)))"
    using Cons.prems by (auto simp: collectOne_def distinct_update split: option.splits)
  then show ?case
    using Cons.IH [of "collectOne c a"] by simp
qed

lemma completed_lookup:
  "distinct (map index arrived) \<Longrightarrow>
   map_of (completedResults (foldl collectOne c arrived)) k =
     (case find (\<lambda>r. index r = k \<and> err r = None) arrived of
        Some r \<Rightarrow> Some (AnyO (output' r))
      | None \<Rightarrow> map_of (completedResults c) k)"
proof (induction arrived arbitrary: c)
  case Nil
  then show ?case by simp
next
  case (Cons a arrived)
  have ih: "map_of (completedResults (foldl collectOne (collectOne c a) arrived)) k =
     (case find (\<lambda>r. index r = k \<and> err r = None) arrived of
        Some r \<Rightarrow> Some (AnyO (output' r))
      | None \<Rightarrow> map_of (completedResults (collectOne c a)) k)"
    using Cons by simp
  show ?case
  proof (cases "index a = k \<and> err a = None")
    case True
    have fresh: "index a \<notin> index ` set arrived" using Cons.prems by simp
    have "index x \<noteq> k" if "x \<in> set arrived" for x
    proof -
      from that have "index x \<in> index ` set arrived" by (rule imageI)
      then show ?thesis using fresh True by auto
    qed
    then have "find (\<lambda>r. index r = k \<and> err r = None) arrived = None"
      by (auto simp: find_None_iff)
    moreover have "map_of (completedResults (collectOne c a)) k = Some (AnyO (output' a))"
      using True by (simp add: collectOne_cases(1) update_conv')
    ultimately show ?thesis
      using ih True by simp
  next
    case False
    have "map_of (completedResults (collectOne c a)) k = map_of (completedResults c) k"
      using False by (auto simp: collectOne_def update_conv' split: option.splits)
    then show ?thesis
      using ih False by (auto split: option.splits)
  qed
qed


text \<open>
  On a first run the bundle is complete. With no ordinary failure and at least one
  suspension, \<open>invoke\<close> returns one composite interrupt: its state holds the original
  inputs, the total count, the suspended indices, each once, and the output of every
  index that succeeded; its errors are the interrupt signals of the suspended indices,
  one each, in the same order; and the state is a valid one.
\<close>

lemma first_run_suspension_bundle:
  fixes b :: "('i, 'o) Node"
  assumes first: "\<not> isResume ctx"
    and comp: "innerTask b ctx (compileOpts b) = Inr runner"
    and conc: "0 \<le> maxConcurrency b"
    and perm: "\<forall>rs. mset (sched rs) = mset rs"
    and task: "task = (\<lambda>i. runTask ctx runner batchOpts (int i) (inputs ! i))"
    and noFail: "\<forall>i < length inputs. \<not> ordinaryFailure (task i)"
    and some: "\<exists>i < length inputs. suspended (task i)"
  shows "\<exists>st es.
           snd (invoke b ctx inputs batchOpts sched) = Failed (CompositeInterrupt st es) \<and>
           OriginalInputs st = map AnyI inputs \<and>
           TotalCount st = int (length inputs) \<and>
           set (InterruptedIndices st) = {int i | i. i < length inputs \<and> suspended (task i)} \<and>
           distinct (InterruptedIndices st) \<and>
           es = map (\<lambda>k. the (err (task (nat k)))) (InterruptedIndices st) \<and>
           (\<forall>i < length inputs.
              map_of (CompletedResults st) (int i) =
                (if err (task i) = None then Some (AnyO (output' (task i))) else None)) \<and>
           valid_state st"
proof -
  define n where "n = length inputs"
  define results where "results = map task [0 ..< n]"
  define arrived where "arrived = arrival (maxConcurrency b) sched results"
  define c0 :: "('i, 'o) collector" where
    "c0 = \<lparr>normalErr = None, interruptErrs = [], completedResults = [],
           interruptedIndices = [], outputs = replicate n (zeroO b)\<rparr>"
  define c where "c = foldl collectOne c0 arrived"
  have cc: "c = collect (replicate n (zeroO b)) arrived"
    by (simp add: c_def c0_def collect_def)
  define st :: "('i, 'o) NodeInterruptState" where
    "st = \<lparr>OriginalInputs = map AnyI inputs, CompletedResults = completedResults c,
           InterruptedIndices = interruptedIndices c, TotalCount = int n\<rparr>"
  from some have n0: "n \<noteq> 0" by (auto simp: n_def)
  have disp: "dispatch ctx runner batchOpts inputs (map int [0 ..< n]) = (results, None)"
    unfolding results_def task n_def
    by (subst dispatch_in_range) (auto simp: comp_def)
  have ms: "mset arrived = mset results"
    unfolding arrived_def using perm by (rule mset_arrival)
  then have sa: "set arrived = set results"
    by (rule mset_eq_setD)
  have idx: "map index results = map int [0 ..< n]"
    by (simp add: results_def task comp_def)
  have "mset (map index arrived) = mset (map index results)"
    using ms by (metis mset_map)
  then have dist: "distinct (map index arrived)"
    using idx by (metis distinct_map distinct_upt inj_on_def mset_eq_imp_distinct_iff of_nat_eq_iff)
  have mem: "r \<in> set arrived \<longleftrightarrow> (\<exists>i < n. r = task i)" for r
    using sa by (auto simp: results_def)
  have itask: "index (task i) = int i" for i
    by (simp add: task)
  have noF: "\<forall>r \<in> set arrived. \<not> ordinaryFailure r"
    using noFail mem by (auto simp: n_def)
  have ne: "normalErr c = None"
    unfolding c_def by (rule normalErr_none) (simp_all add: noF c0_def)
  have ints: "interruptedIndices c = map index (filter suspended arrived)"
    "interruptErrs c = map (\<lambda>r. the (err r)) (filter suspended arrived)"
    using interrupts_collected [OF noF, of c0]
    by (simp_all add: c_def c0_def)
  from some obtain i0 where "i0 < n" "suspended (task i0)" by (auto simp: n_def)
  then have "task i0 \<in> set (filter suspended arrived)"
    using mem by auto
  then have nonempty: "interruptErrs c \<noteq> []"
    unfolding ints by (metis empty_iff list.map_disc_iff list.set(1))
  have res: "snd (invoke b ctx inputs batchOpts sched) =
      Failed (CompositeInterrupt st (interruptErrs c))"
    using n0 comp conc disp ne nonempty
    by (simp add: invoke_def prepare_first_run [OF first] n_def [symmetric] cc [symmetric]
        arrived_def [symmetric] finish_def st_def)
  have iset: "set (InterruptedIndices st) = {int i | i. i < n \<and> suspended (task i)}"
  proof (intro set_eqI iffI)
    fix k assume "k \<in> set (InterruptedIndices st)"
    then obtain r where "r \<in> set arrived" "suspended r" "k = index r"
      by (auto simp: st_def ints)
    then show "k \<in> {int i | i. i < n \<and> suspended (task i)}"
      using mem [of r] itask by auto
  next
    fix k assume "k \<in> {int i | i. i < n \<and> suspended (task i)}"
    then obtain i where i: "i < n" "suspended (task i)" "k = int i" by auto
    then have "task i \<in> set (filter suspended arrived)"
      using mem [of "task i"] by auto
    then have "index (task i) \<in> set (map index (filter suspended arrived))"
      by (metis imageI set_map)
    then show "k \<in> set (InterruptedIndices st)"
      using i itask by (simp add: st_def ints)
  qed
  have idist: "distinct (InterruptedIndices st)"
    using dist by (simp add: st_def ints distinct_map_filter)
  have es: "interruptErrs c = map (\<lambda>k. the (err (task (nat k)))) (InterruptedIndices st)"
  proof -
    have "the (err r) = the (err (task (nat (index r))))" if "r \<in> set arrived" for r
      using that mem [of r] itask by auto
    then show ?thesis
      unfolding ints st_def by (simp add: comp_def)
  qed
  have c0e: "completedResults c0 = []"
    by (simp add: c0_def)
  have look: "map_of (CompletedResults st) (int i) =
      (if err (task i) = None then Some (AnyO (output' (task i))) else None)" if i: "i < n" for i
  proof -
    have only: "r = task i" if "r \<in> set arrived" "index r = int i" for r
      using that mem itask by auto
    have m: "map_of (CompletedResults st) (int i) =
      (case find (\<lambda>r. index r = int i \<and> err r = None) arrived of
         Some r \<Rightarrow> Some (AnyO (output' r)) | None \<Rightarrow> None)"
      using completed_lookup [OF dist, of c0 "int i"]
      by (simp add: st_def c_def [symmetric] c0e split: option.splits)
    show ?thesis
    proof (cases "err (task i) = None")
      case True
      have "task i \<in> set arrived" using i mem by auto
      moreover have "index (task i) = int i \<and> err (task i) = None"
        using True itask by simp
      ultimately have "\<exists>r \<in> set arrived. index r = int i \<and> err r = None"
        by (rule rev_bexI)
      then have "find (\<lambda>r. index r = int i \<and> err r = None) arrived \<noteq> None"
        unfolding find_None_iff by blast
      then obtain r where f: "find (\<lambda>r. index r = int i \<and> err r = None) arrived = Some r"
        by blast
      then have "r \<in> set arrived" "index r = int i"
        by (auto simp: find_Some_iff)
      then have "r = task i" by (rule only)
      then show ?thesis using m f True by simp
    next
      case False
      have "find (\<lambda>r. index r = int i \<and> err r = None) arrived = None"
        using False only by (auto simp: find_None_iff)
      then show ?thesis using m False by simp
    qed
  qed
  have keys0: "fst ` set (CompletedResults st) = {index r | r. r \<in> set arrived \<and> err r = None}"
    using completed_keys [of c0 arrived] by (simp add: st_def c_def c0_def)
  have keys: "fst ` set (CompletedResults st) = {int i | i. i < n \<and> err (task i) = None}"
    unfolding keys0
  proof (intro set_eqI iffI)
    fix k assume "k \<in> {index r | r. r \<in> set arrived \<and> err r = None}"
    then obtain r where "r \<in> set arrived" "err r = None" "k = index r" by auto
    then show "k \<in> {int i | i. i < n \<and> err (task i) = None}"
      using mem [of r] itask by auto
  next
    fix k assume "k \<in> {int i | i. i < n \<and> err (task i) = None}"
    then obtain i where i: "i < n" "err (task i) = None" "k = int i" by auto
    then have "task i \<in> set arrived" using mem [of "task i"] by auto
    then have "k = index (task i) \<and> task i \<in> set arrived \<and> err (task i) = None"
      using i itask by simp
    then have "\<exists>r. k = index r \<and> r \<in> set arrived \<and> err r = None"
      by (rule exI)
    then show "k \<in> {index r | r. r \<in> set arrived \<and> err r = None}"
      by simp
  qed
  have kdist: "distinct (map fst (CompletedResults st))"
    unfolding st_def c_def
    by (simp, rule completed_distinct) (simp add: c0_def)
  have vals: "0 \<le> k \<and> k < int n \<and> assertO v \<noteq> None" if kv: "(k, v) \<in> set (CompletedResults st)" for k v
  proof -
    have "k \<in> fst ` set (CompletedResults st)" using kv by force
    then obtain i where i: "i < n" "k = int i" "err (task i) = None"
      using keys by auto
    have "map_of (CompletedResults st) k = Some v"
      using kdist kv by simp
    then have "v = AnyO (output' (task i))"
      using look [OF i(1)] i by simp
    then show ?thesis using i by simp
  qed
  have disj: "set (InterruptedIndices st) \<inter> fst ` set (CompletedResults st) = {}"
    unfolding iset keys by (auto simp: suspended_def)
  have valid: "valid_state st"
    unfolding valid_state_def using iset kdist disj vals
    by (auto simp: st_def n_def)
  show ?thesis
    using res es iset idist look valid
    by (intro exI [of _ st] exI [of _ "interruptErrs c"]) (simp add: st_def n_def)
qed

section \<open>The concurrency bound\<close>

lemma pool_inv_initial: "pool_inv B idxs (initial idxs)"
  by (simp add: pool_inv_def initial_def permits_def started_def)

lemma length_remove1_mem: "x \<in> set xs \<Longrightarrow> Suc (length (remove1 x xs)) = length xs"
  by (induction xs) auto

lemma pool_inv_step:
  assumes "pool_inv B idxs s" and "step B e s = Some s'"
  shows "pool_inv B idxs s'"
proof (cases e)
  case Start
  with assms show ?thesis
    by (auto simp: pool_inv_def permits_def started_def split: option.splits list.splits if_splits)
next
  case Return
  with assms show ?thesis
    by (auto simp: pool_inv_def permits_def started_def split: option.splits list.splits if_splits)
next
  case Spawn
  with assms show ?thesis
    by (auto simp: pool_inv_def permits_def started_def split: option.splits list.splits if_splits)
next
  case (Acquire idx)
  with assms show ?thesis
    by (auto simp: pool_inv_def permits_def started_def split: option.splits list.splits if_splits)
next
  case (Complete idx)
  with assms have mem: "idx \<in> set (running s)"
    and s': "s' = s\<lparr>running := remove1 idx (running s), releasing := releasing s @ [idx],
                  sent := sent s @ [idx]\<rparr>"
    by (auto split: if_splits)
  have "permits s' = permits s"
    using length_remove1_mem [OF mem] by (simp add: s' permits_def)
  moreover have "running s \<noteq> []" using mem by auto
  ultimately show ?thesis
    using assms(1) by (auto simp: pool_inv_def s')
next
  case (Release idx)
  with assms have mem: "idx \<in> set (releasing s)"
    and s': "s' = s\<lparr>releasing := remove1 idx (releasing s)\<rparr>"
    by (auto split: if_splits)
  have "permits s' \<le> permits s"
    using length_remove1_mem [OF mem] by (simp add: s' permits_def)
  moreover have "releasing s \<noteq> []" using mem by auto
  ultimately show ?thesis
    using assms(1) by (auto simp: pool_inv_def s')
qed

lemma pool_inv_run:
  "pool_inv B idxs s \<Longrightarrow> run B events s = Some s' \<Longrightarrow> pool_inv B idxs s'"
proof (induction events arbitrary: s)
  case Nil
  then show ?case by simp
next
  case (Cons e events)
  then show ?case
    by (auto split: option.splits dest: pool_inv_step)
qed

text \<open>
  C5. Concurrency bound respected. In every state the dispatch loop can reach, under
  every schedule and for every list of indices: with a bound \<open>B > 0\<close> the number of
  sub-task invocations executing, the one on the calling goroutine included, is at most
  \<open>B\<close>, and so is the number of permits taken; with \<open>B = 0\<close> at most one invocation
  executes, no goroutine exists, and the tasks started so far followed by the pending
  ones are the indices to process, so each task has returned before the next starts.
\<close>

theorem concurrency_bound_respected:
  assumes "run B events (initial idxs) = Some s"
  shows "(0 < B \<longrightarrow> int (live s) \<le> B \<and> int (permits s) \<le> B) \<and>
         (B = 0 \<longrightarrow> live s \<le> 1 \<and> waiting s = [] \<and> running s = [] \<and>
                    started s @ pending s = idxs)"
proof -
  have inv: "pool_inv B idxs s"
    using pool_inv_initial assms by (rule pool_inv_run)
  have "int (live s) \<le> B" if "0 < B"
  proof (cases "calling s")
    case None
    then have "live s \<le> permits s" by (simp add: live_def permits_def)
    then show ?thesis using inv that by (simp add: pool_inv_def)
  next
    case (Some idx)
    then have "live s = 1" using inv by (simp add: pool_inv_def live_def)
    then show ?thesis using that by simp
  qed
  moreover have "live s \<le> 1" if "B = 0"
    using inv that by (auto simp: pool_inv_def live_def split: option.splits)
  ultimately show ?thesis
    using inv by (auto simp: pool_inv_def)
qed

theorem concurrency_bound_respected_witness:
  "run 2 [Start, Return, Spawn, Spawn, Acquire 1, Spawn, Acquire 2, Complete 1, Release 1, Acquire 3]
       (initial [0, 1, 2, 3]) =
     Some \<lparr>iteration = 4, pending = [], calling = None, waiting = [], running = [2, 3],
           releasing = [], sent = [0, 1]\<rparr> \<and>
   live \<lparr>iteration = 4, pending = [], calling = None, waiting = [], running = [2, 3],
         releasing = [], sent = [0, 1]\<rparr> \<le> 2 \<and>
   run 0 [Start, Return, Start] (initial [0, 1, 2, 3]) =
     Some \<lparr>iteration = 2, pending = [2, 3], calling = Some 1, waiting = [], running = [],
           releasing = [], sent = [0]\<rparr> \<and>
   live \<lparr>iteration = 2, pending = [2, 3], calling = Some 1, waiting = [], running = [],
         releasing = [], sent = [0]\<rparr> \<le> 1"
proof -
  let ?s = "\<lparr>iteration = 4, pending = [], calling = None, waiting = [], running = [2, 3],
           releasing = [], sent = [0, 1]\<rparr>"
  let ?t = "\<lparr>iteration = 2, pending = [2, 3], calling = Some 1, waiting = [], running = [],
           releasing = [], sent = [0]\<rparr>"
  have r2: "run 2 [Start, Return, Spawn, Spawn, Acquire 1, Spawn, Acquire 2, Complete 1,
                   Release 1, Acquire 3] (initial [0, 1, 2, 3]) = Some ?s"
    by (simp add: initial_def permits_def)
  have r0: "run 0 [Start, Return, Start] (initial [0, 1, 2, 3]) = Some ?t"
    by (simp add: initial_def)
  show ?thesis
    using r2 r0 concurrency_bound_respected [OF r2] concurrency_bound_respected [OF r0]
    by simp
qed

section \<open>The order of the result channel\<close>

lemma chan_inv_initial: "chan_inv idxs (initial idxs)"
  by (simp add: chan_inv_def initial_def started_def in_flight_def)

lemma chan_inv_step:
  assumes pinv: "pool_inv B idxs s" and inv: "chan_inv idxs s" and st: "step B e s = Some s'"
  shows "chan_inv idxs s'"
proof (cases e)
  case Start
  with st obtain idx rest where p: "pending s = idx # rest" "calling s = None"
    and s': "s' = s\<lparr>iteration := Suc (iteration s), pending := rest, calling := Some idx\<rparr>"
    by (auto split: option.splits list.splits if_splits)
  have m: "mset (started s') + in_flight s' + mset (pending s') = mset idxs"
    using inv p by (simp add: chan_inv_def s' started_def in_flight_def)
  have h: "idxs \<noteq> [] \<and> hd (started s') = hd idxs"
  proof (cases "iteration s = 0")
    case True
    then have "pending s = idxs" "started s = []"
      using inv by (simp_all add: chan_inv_def)
    then show ?thesis
      using p by (auto simp: s' started_def)
  next
    case False
    then have "started s \<noteq> []" using inv by (simp add: chan_inv_def)
    then show ?thesis
      using inv p by (auto simp: chan_inv_def s' started_def)
  qed
  show ?thesis
    using m h by (simp add: chan_inv_def s' started_def)
next
  case Return
  with inv st show ?thesis
    by (auto simp: chan_inv_def started_def in_flight_def split: option.splits)
next
  case Spawn
  with inv st show ?thesis
    by (auto simp: chan_inv_def started_def in_flight_def split: option.splits list.splits if_splits)
next
  case (Acquire idx)
  with inv st show ?thesis
    by (auto simp: chan_inv_def started_def in_flight_def split: if_splits)
next
  case (Complete idx)
  with st have mem: "idx \<in> set (running s)"
    and s': "s' = s\<lparr>running := remove1 idx (running s), releasing := releasing s @ [idx],
                  sent := sent s @ [idx]\<rparr>"
    by (auto split: if_splits)
  have "in_flight s \<noteq> {#}" using mem by (auto simp: in_flight_def)
  then have it: "iteration s \<noteq> 0" and ne: "started s \<noteq> []"
    using inv by (auto simp: chan_inv_def)
  have "calling s = None"
    using pinv mem by (auto simp: pool_inv_def)
  then have "sent s \<noteq> [] \<and> calling s = None"
    using ne by (auto simp: started_def)
  then have h: "hd (started s') = hd (started s)" "started s' \<noteq> []"
    by (auto simp: s' started_def split: option.splits)
  have m: "mset (started s') + in_flight s' = mset (started s) + in_flight s"
    using mem by (simp add: s' started_def in_flight_def)
  show ?thesis
    using inv it ne h m unfolding chan_inv_def by (simp add: s')
next
  case (Release idx)
  with inv st show ?thesis
    by (auto simp: chan_inv_def started_def in_flight_def split: if_splits)
qed

lemma chan_inv_run:
  "pool_inv B idxs s \<Longrightarrow> chan_inv idxs s \<Longrightarrow> run B events s = Some s' \<Longrightarrow>
   chan_inv idxs s'"
proof (induction events arbitrary: s)
  case Nil
  then show ?case by simp
next
  case (Cons e events)
  from Cons.prems(3) obtain s1 where s1: "step B e s = Some s1" "run B events s1 = Some s'"
    by (auto split: option.splits)
  have "pool_inv B idxs s1"
    using Cons.prems(1) s1(1) by (rule pool_inv_step)
  moreover have "chan_inv idxs s1"
    using Cons.prems(1,2) s1(1) by (rule chan_inv_step)
  ultimately show ?case
    using s1(2) by (rule Cons.IH)
qed

text \<open>
  Once every task has sent its result, the channel holds the indices to process in the
  order of the loop when \<open>maxConcurrency = 0\<close>, and otherwise the first index followed
  by a rearrangement of the others: the lists that \<open>arrival\<close> builds.
\<close>

lemma result_channel_order:
  assumes r: "run B events (initial idxs) = Some s"
    and fin: "pending s = []" "calling s = None" "waiting s = []" "running s = []"
  shows "(B = 0 \<longrightarrow> sent s = idxs) \<and>
         (\<exists>others. sent s = (case idxs of [] \<Rightarrow> [] | first # rest \<Rightarrow> first # others) \<and>
                   mset others = mset (tl idxs))"
proof -
  have p: "pool_inv B idxs s"
    using pool_inv_initial r by (rule pool_inv_run)
  have c: "chan_inv idxs s"
    using pool_inv_initial chan_inv_initial r by (rule chan_inv_run)
  have st: "started s = sent s"
    using fin by (simp add: started_def)
  have seq: "sent s = idxs" if "B = 0"
    using p that fin st by (simp add: pool_inv_def)
  have ms: "mset (sent s) = mset idxs"
    using c fin st by (simp add: chan_inv_def in_flight_def)
  have "\<exists>others. sent s = (case idxs of [] \<Rightarrow> [] | first # rest \<Rightarrow> first # others) \<and>
                   mset others = mset (tl idxs)"
  proof (cases idxs)
    case Nil
    then show ?thesis using ms by simp
  next
    case (Cons first rest)
    then have "sent s \<noteq> []" using ms by auto
    then have "hd (sent s) = first"
      using c st Cons by (simp add: chan_inv_def)
    then have "sent s = first # tl (sent s)"
      using \<open>sent s \<noteq> []\<close> by (metis list.collapse)
    moreover from this have "mset (tl (sent s)) = mset rest"
      using ms Cons by (metis add_mset_add_mset_same_iff mset.simps(2))
    ultimately show ?thesis
      using Cons by auto
  qed
  with seq show ?thesis by blast
qed

end
